theory Spec2Isabelle
  imports Complex_Main "HOL-Library.Word" "HOL-Library.Log_Nat"
begin

section \<open>JavaScript integers and strings\<close>

text \<open>
  A JavaScript string is a sequence of UTF-16 code units; \<open>charCodeAt\<close> returns one
  of them, a number in \<open>[0, 65536)\<close>.
\<close>

type_synonym jsstring = "16 word list"

text \<open>
  \<open>ToInt32\<close>: the value modulo \<open>2^32\<close>, read as two's complement. It is what
  \<open>x | 0\<close>, the operands and the result of \<open>x << k\<close>, and a store into an
  \<open>Int32Array\<close> go through.
\<close>

definition toInt32 :: "int \<Rightarrow> int" where
  "toInt32 x = (x + 2 ^ 31) mod 2 ^ 32 - 2 ^ 31"

definition shl32 :: "int \<Rightarrow> nat \<Rightarrow> int" where
  "shl32 x k = toInt32 (toInt32 x * 2 ^ (k mod 32))"

text \<open>
  A number that may be \<open>undefined\<close> or \<open>NaN\<close> is an \<open>int option\<close>: \<open>None\<close>
  stands for both (neither is a valid index, both are stored as 0 in a typed array).
  Truncated remainder \<open>a % b\<close> on integers takes the sign of \<open>a\<close> and is \<open>NaN\<close>
  for \<open>b = 0\<close>.
\<close>

definition js_rem :: "int \<Rightarrow> int \<Rightarrow> int option" where
  "js_rem a b = (if b = 0 then None else Some (sgn a * (\<bar>a\<bar> mod \<bar>b\<bar>)))"

definition storeInt32 :: "int option \<Rightarrow> int" where
  "storeInt32 v = (case v of None \<Rightarrow> 0 | Some x \<Rightarrow> toInt32 x)"

definition storeUint8 :: "int option \<Rightarrow> 8 word" where
  "storeUint8 v = (case v of None \<Rightarrow> 0 | Some x \<Rightarrow> word_of_int x)"

section \<open>LogisticMoore: the key hash\<close>

text \<open>
  The loop of \<open>_initializeSeed\<close>:
  \<^verbatim>\<open>hash = ((hash << 5) - hash + key.charCodeAt(i)) | 0\<close>, from \<open>hash = 0\<close>.
  Subtraction and addition are on doubles and exact here (all operands are below \<open>2^33\<close>).
\<close>

definition hashStep :: "int \<Rightarrow> 16 word \<Rightarrow> int" where
  "hashStep hash c = toInt32 (shl32 hash 5 - hash + uint c)"

definition keyHash :: "jsstring \<Rightarrow> int" where
  "keyHash key = foldl hashStep 0 key"

text \<open>
  The accumulator as the specification words it: \<open>hash * 31 + charCode\<close>, wrapped to a
  32-bit two's-complement integer at each step (masked to 32 bits, then read as signed).
\<close>

definition wrapSigned32 :: "int \<Rightarrow> int" where
  "wrapSigned32 x =
     (let u = x mod 4294967296 in if u < 2147483648 then u else u - 4294967296)"

fun hashSpec :: "int \<Rightarrow> 16 word list \<Rightarrow> int" where
  "hashSpec h [] = h"
| "hashSpec h (c # cs) = hashSpec (wrapSigned32 (h * 31 + uint c)) cs"

section \<open>Numbers: IEEE 754 binary64\<close>

text \<open>
  A finite JavaScript number is a rational \<open>m * 2^q\<close> with \<open>\<bar>m\<bar> < 2^53\<close> and
  \<open>q \<ge> -1074\<close>. An arithmetic operation returns the exact result rounded to the
  nearest such value, ties to the even mantissa. \<open>ilog2 x\<close> is the binary exponent of a
  positive \<open>x\<close>, the grid of its binade has step \<open>2^(ilog2 x - 52)\<close>, and below the
  normal range the step stays at \<open>2^-1074\<close>. Overflow to \<open>Infinity\<close> is left out: the
  state of a generator stays strictly between 0 and 1, and the metrics divide a count
  by a length, so no number of this program comes near \<open>2^1024\<close>.
\<close>

type_synonym number = rat

definition ilog2 :: "rat \<Rightarrow> int" where
  "ilog2 x =
     (let (a, b) = quotient_of x; k = bitlen a - bitlen b
      in if 2 powi k \<le> x then k else k - 1)"

definition roundHalfEven :: "rat \<Rightarrow> int" where
  "roundHalfEven x =
     (let f = \<lfloor>x\<rfloor>; d = x - of_int f
      in if d < 1 / 2 then f else if 1 / 2 < d then f + 1 else if even f then f else f + 1)"

definition quantum :: "rat \<Rightarrow> int" where
  "quantum x = max (ilog2 \<bar>x\<bar> - 52) (- 1074)"

definition round64 :: "rat \<Rightarrow> number" where
  "round64 x =
     (if x = 0 then 0
      else of_int (roundHalfEven (x / 2 powi quantum x)) * 2 powi quantum x)"

definition fadd :: "number \<Rightarrow> number \<Rightarrow> number" where
  "fadd x y = round64 (x + y)"

definition fsub :: "number \<Rightarrow> number \<Rightarrow> number" where
  "fsub x y = round64 (x - y)"

definition fmul :: "number \<Rightarrow> number \<Rightarrow> number" where
  "fmul x y = round64 (x * y)"

text \<open>Division by a number other than zero (\<open>x / 0\<close> is not a finite number).\<close>

definition fdiv :: "number \<Rightarrow> number \<Rightarrow> number" where
  "fdiv x y = round64 (x / y)"

text \<open>A decimal literal of the source denotes the nearest number.\<close>

definition literal :: "rat \<Rightarrow> number" where
  "literal x = round64 x"

text \<open>\<open>ToUint32\<close> of a finite integer, as \<open>x >>> 0\<close> computes it.\<close>

definition toUint32 :: "int \<Rightarrow> 32 word" where
  "toUint32 x = word_of_int x"

section \<open>LogisticMoore\<close>

record LogisticMoore =
  this_r :: number
  this_stabilizationSteps :: nat
  this_state :: number

text \<open>
  \<open>_initializeSeed\<close>: the hash loop, then
  \<^verbatim>\<open>0.1 + (Math.abs(hash) % 800000) / 1000000.0\<close>.
\<close>

definition initializeSeed :: "jsstring \<Rightarrow> number" where
  "initializeSeed key =
     (let hash = keyHash key
      in fadd (literal (1 / 10)) (fdiv (of_int (\<bar>hash\<bar> mod 800000)) 1000000))"

text \<open>
  \<open>_transition\<close>: \<^verbatim>\<open>next = this.r * this.state * (1 - this.state)\<close>, and
  \<^verbatim>\<open>if (next <= 0 || next >= 1) next = 0.5\<close>.
\<close>

definition transition :: "LogisticMoore \<Rightarrow> LogisticMoore" where
  "transition g =
     (let next = fmul (fmul (this_r g) (this_state g)) (fsub 1 (this_state g))
      in g\<lparr>this_state := (if next \<le> 0 \<or> 1 \<le> next then 1 / 2 else next)\<rparr>)"

definition stabilizeState :: "LogisticMoore \<Rightarrow> LogisticMoore" where
  "stabilizeState g = (transition ^^ this_stabilizationSteps g) g"

text \<open>The constructor; the application calls it with the default of 1000 steps.\<close>

definition newLogisticMoore :: "jsstring \<Rightarrow> nat \<Rightarrow> LogisticMoore" where
  "newLogisticMoore keyString stabilizationSteps =
     stabilizeState
       \<lparr> this_r = literal (39999 / 10000), this_stabilizationSteps = stabilizationSteps,
         this_state = initializeSeed keyString \<rparr>"

definition newLogisticMooreDefault :: "jsstring \<Rightarrow> LogisticMoore" where
  "newLogisticMooreDefault keyString = newLogisticMoore keyString 1000"

text \<open>
  \<open>produceOutput\<close>: one transition, then
  \<^verbatim>\<open>Math.floor(Math.floor(this.state * 1e14) / 256) >>> 0\<close>.
\<close>

definition produceOutput :: "LogisticMoore \<Rightarrow> 32 word \<times> LogisticMoore" where
  "produceOutput g =
     (let g' = transition g;
          magnified = \<lfloor>fmul (this_state g') 100000000000000\<rfloor>
      in (toUint32 \<lfloor>fdiv (of_int magnified) 256\<rfloor>, g'))"

text \<open>\<open>generateStream\<close>: \<open>count\<close> outputs in call order, and the generator after them.\<close>

fun generateStream :: "LogisticMoore \<Rightarrow> nat \<Rightarrow> 32 word list \<times> LogisticMoore" where
  "generateStream g 0 = ([], g)"
| "generateStream g (Suc count) =
     (let (v, g1) = produceOutput g; (vs, g2) = generateStream g1 count
      in (v # vs, g2))"

section \<open>The stream in closed form\<close>

text \<open>
  The integer that \<open>produceOutput\<close> extracts from a state, and the \<open>i\<close>-th value of the
  stream of a fresh generator: the extraction from the seed of the key after the
  stabilization steps and \<open>i + 1\<close> more transitions.
\<close>

definition extractOutput :: "number \<Rightarrow> 32 word" where
  "extractOutput state = toUint32 \<lfloor>fdiv (of_int \<lfloor>fmul state 100000000000000\<rfloor>) 256\<rfloor>"

definition seededGenerator :: "jsstring \<Rightarrow> nat \<Rightarrow> LogisticMoore" where
  "seededGenerator keyString stabilizationSteps =
     \<lparr> this_r = literal (39999 / 10000), this_stabilizationSteps = stabilizationSteps,
       this_state = initializeSeed keyString \<rparr>"

definition streamValue :: "jsstring \<Rightarrow> nat \<Rightarrow> nat \<Rightarrow> 32 word" where
  "streamValue keyString stabilizationSteps i =
     extractOutput
       (this_state ((transition ^^ (stabilizationSteps + Suc i))
                      (seededGenerator keyString stabilizationSteps)))"

section \<open>MealyMachine\<close>

text \<open>
  The class \<open>MealyMachine\<close>: \<open>this.n\<close>, \<open>this.m\<close>, \<open>this.currentState\<close> and three
  arrays of \<open>nStates\<close> rows, each row an \<open>Int32Array(mAlphabet)\<close> of its own.
\<close>

record MealyMachine =
  this_n :: nat
  this_m :: nat
  currentState :: "int option"
  delta :: "int list list"
  lambdaTable :: "int list list"
  lambdaInv :: "int list list"

definition newMealyMachine :: "nat \<Rightarrow> nat \<Rightarrow> MealyMachine" where
  "newMealyMachine nStates mAlphabet =
     \<lparr> this_n = nStates, this_m = mAlphabet, currentState = Some 0,
       delta = replicate nStates (replicate mAlphabet 0),
       lambdaTable = replicate nStates (replicate mAlphabet 0),
       lambdaInv = replicate nStates (replicate mAlphabet 0) \<rparr>"

text \<open>
  \<open>table[s]\<close> is \<open>undefined\<close> unless \<open>s\<close> is an index of the array, and reading an
  element of \<open>undefined\<close> throws a \<open>TypeError\<close>. \<open>row[x]\<close> on a typed array is
  \<open>undefined\<close> out of range and throws nothing.
\<close>

datatype error = TypeError

definition rowAt :: "int list list \<Rightarrow> int option \<Rightarrow> error + int list" where
  "rowAt tbl s =
     (case s of
        None \<Rightarrow> Inl TypeError
      | Some k \<Rightarrow> if 0 \<le> k \<and> nat k < length tbl then Inr (tbl ! nat k) else Inl TypeError)"

definition elemAt :: "int list \<Rightarrow> int option \<Rightarrow> int option" where
  "elemAt row x =
     (case x of
        None \<Rightarrow> None
      | Some k \<Rightarrow> if 0 \<le> k \<and> nat k < length row then Some (row ! nat k) else None)"

text \<open>A counted \<open>for\<close> loop whose body may throw: the first exception leaves the loop.\<close>

fun forM :: "nat list \<Rightarrow> (nat \<Rightarrow> 'st \<Rightarrow> error + 'st) \<Rightarrow> 'st \<Rightarrow> error + 'st" where
  "forM [] body st = Inr st"
| "forM (i # is) body st =
     (case body i st of Inl e \<Rightarrow> Inl e | Inr st' \<Rightarrow> forM is body st')"

text \<open>
  \<open>reset\<close> and the warm-up loop at the head of \<open>encryptBytes\<close> and \<open>decryptBytes\<close>:
  \<^verbatim>\<open>for (j = 0; j < 500; j++) this.currentState = this.delta[this.currentState][j % 256]\<close>.
\<close>

definition warmStep :: "MealyMachine \<Rightarrow> nat \<Rightarrow> int option \<Rightarrow> error + int option" where
  "warmStep M j cs =
     (case rowAt (delta M) cs of
        Inl e \<Rightarrow> Inl e
      | Inr row \<Rightarrow> Inr (elemAt row (Some (int (j mod 256)))))"

definition reset :: "MealyMachine \<Rightarrow> MealyMachine" where
  "reset M = M\<lparr>currentState := Some 0\<rparr>"

definition resetAndWarm :: "MealyMachine \<Rightarrow> error + int option" where
  "resetAndWarm M = forM [0..<500] (warmStep M) (currentState (reset M))"

text \<open>One entry of the trajectory: \<open>{ t, s, i, sPrime, o }\<close>.\<close>

record TrajectoryStep =
  step_t :: nat
  step_s :: "int option"
  step_i :: "int option"
  step_sPrime :: "int option"
  step_o :: "int option"

text \<open>The locals of the byte loop: the state, the output array and the trajectory.\<close>

record loopState =
  cur :: "int option"
  outBytes :: "8 word list"
  trajectory :: "TrajectoryStep list"

text \<open>
  The body of the loop of \<open>encryptBytes\<close> at index \<open>i\<close>. The input is a
  \<open>Uint8Array\<close>; the output array is one too, so a store keeps the value modulo 256.
\<close>

definition encryptStep :: "MealyMachine \<Rightarrow> 8 word list \<Rightarrow> nat \<Rightarrow> loopState \<Rightarrow> error + loopState" where
  "encryptStep M bytes i st =
     (let stateIdx = cur st; input = Some (uint (bytes ! i)) in
      case rowAt (lambdaTable M) stateIdx of
        Inl e \<Rightarrow> Inl e
      | Inr lrow \<Rightarrow>
          (let output = elemAt lrow input in
           case rowAt (delta M) stateIdx of
             Inl e \<Rightarrow> Inl e
           | Inr drow \<Rightarrow>
               (let nextState =
                      (case elemAt drow input of
                         None \<Rightarrow> None
                       | Some d \<Rightarrow> js_rem (d + int i) (int (this_n M)))
                in Inr \<lparr> cur = nextState,
                         outBytes = (outBytes st)[i := storeUint8 output],
                         trajectory =
                           (if i < 20
                            then trajectory st @
                                 [\<lparr> step_t = i, step_s = stateIdx, step_i = input,
                                    step_sPrime = nextState, step_o = output \<rparr>]
                            else trajectory st) \<rparr>)))"

definition encryptBytes ::
  "MealyMachine \<Rightarrow> 8 word list \<Rightarrow> error + (MealyMachine \<times> 8 word list \<times> TrajectoryStep list)" where
  "encryptBytes M bytes =
     (case resetAndWarm M of
        Inl e \<Rightarrow> Inl e
      | Inr warm \<Rightarrow>
          (case forM [0..<length bytes] (encryptStep M bytes)
                  \<lparr> cur = warm, outBytes = replicate (length bytes) 0, trajectory = [] \<rparr> of
             Inl e \<Rightarrow> Inl e
           | Inr st \<Rightarrow> Inr (M\<lparr>currentState := cur st\<rparr>, outBytes st, trajectory st)))"

text \<open>The body of the loop of \<open>decryptBytes\<close> at index \<open>i\<close>.\<close>

definition decryptStep :: "MealyMachine \<Rightarrow> 8 word list \<Rightarrow> nat \<Rightarrow> loopState \<Rightarrow> error + loopState" where
  "decryptStep M bytes i st =
     (let stateIdx = cur st in
      case rowAt (lambdaInv M) stateIdx of
        Inl e \<Rightarrow> Inl e
      | Inr irow \<Rightarrow>
          (let recovered = elemAt irow (Some (uint (bytes ! i))) in
           case rowAt (delta M) stateIdx of
             Inl e \<Rightarrow> Inl e
           | Inr drow \<Rightarrow>
               (let nextState =
                      (case elemAt drow recovered of
                         None \<Rightarrow> None
                       | Some d \<Rightarrow> js_rem (d + int i) (int (this_n M)))
                in Inr \<lparr> cur = nextState,
                         outBytes = (outBytes st)[i := storeUint8 recovered],
                         trajectory =
                           (if i < 20
                            then trajectory st @
                                 [\<lparr> step_t = i, step_s = stateIdx, step_i = recovered,
                                    step_sPrime = nextState,
                                    step_o = Some (uint (bytes ! i)) \<rparr>]
                            else trajectory st) \<rparr>)))"

definition decryptBytes ::
  "MealyMachine \<Rightarrow> 8 word list \<Rightarrow> error + (MealyMachine \<times> 8 word list \<times> TrajectoryStep list)" where
  "decryptBytes M bytes =
     (case resetAndWarm M of
        Inl e \<Rightarrow> Inl e
      | Inr warm \<Rightarrow>
          (case forM [0..<length bytes] (decryptStep M bytes)
                  \<lparr> cur = warm, outBytes = replicate (length bytes) 0, trajectory = [] \<rparr> of
             Inl e \<Rightarrow> Inl e
           | Inr st \<Rightarrow> Inr (M\<lparr>currentState := cur st\<rparr>, outBytes st, trajectory st)))"

section \<open>buildMealyMachine\<close>

text \<open>
  \<open>entropy[cursor]\<close> on the \<open>Uint32Array\<close> (\<open>undefined\<close> out of range), and
  \<^verbatim>\<open>Math.abs(entropy[cursor]) % k\<close>.
\<close>

definition entropyAt :: "32 word list \<Rightarrow> nat \<Rightarrow> int option" where
  "entropyAt entropy cursor =
     (if cursor < length entropy then Some (uint (entropy ! cursor)) else None)"

definition drawMod :: "32 word list \<Rightarrow> nat \<Rightarrow> nat \<Rightarrow> int option" where
  "drawMod entropy cursor k =
     (case entropyAt entropy cursor of
        None \<Rightarrow> None
      | Some v \<Rightarrow> js_rem \<bar>v\<bar> (int k))"

text \<open>
  The permutation of one state. \<open>perm\<close> is a \<open>Uint8Array\<close>, so \<open>perm[i] = i\<close> keeps
  \<open>i\<close> modulo 256. Then the shuffle, \<open>i\<close> from \<open>mAlphabet - 1\<close> down to 1:
  \<^verbatim>\<open>j = Math.abs(entropy[cursor]) % (i + 1); temp = perm[i]; perm[i] = perm[j]; perm[j] = temp; cursor++\<close>.
\<close>

definition identityPerm :: "nat \<Rightarrow> 8 word list" where
  "identityPerm mAlphabet =
     fold (\<lambda>i perm. perm[i := of_nat i]) [0..<mAlphabet] (replicate mAlphabet 0)"

definition permAt :: "8 word list \<Rightarrow> int option \<Rightarrow> int option" where
  "permAt perm j =
     (case j of
        None \<Rightarrow> None
      | Some k \<Rightarrow> if 0 \<le> k \<and> nat k < length perm then Some (uint (perm ! nat k)) else None)"

definition permSet :: "8 word list \<Rightarrow> int option \<Rightarrow> 8 word \<Rightarrow> 8 word list" where
  "permSet perm j v =
     (case j of
        None \<Rightarrow> perm
      | Some k \<Rightarrow> if 0 \<le> k then perm[nat k := v] else perm)"

definition shuffleStep :: "32 word list \<Rightarrow> nat \<Rightarrow> 8 word list \<times> nat \<Rightarrow> 8 word list \<times> nat" where
  "shuffleStep entropy i pc =
     (let perm = fst pc; cursor = snd pc;
          j = drawMod entropy cursor (i + 1);
          temp = perm ! i;
          perm1 = perm[i := storeUint8 (permAt perm j)];
          perm2 = permSet perm1 j temp
      in (perm2, cursor + 1))"

definition shuffle :: "32 word list \<Rightarrow> nat \<Rightarrow> nat \<Rightarrow> 8 word list \<times> nat" where
  "shuffle entropy mAlphabet cursor =
     fold (shuffleStep entropy) (rev [1..<mAlphabet]) (identityPerm mAlphabet, cursor)"

text \<open>The locals that the two fill loops update: the machine and the cursor.\<close>

record buildState =
  machine :: MealyMachine
  cursor :: nat

text \<open>
  The transition fill:
  \<^verbatim>\<open>machine.delta[s][i] = Math.abs(entropy[cursor]) % nStates; cursor++\<close>.
\<close>

definition setDelta :: "32 word list \<Rightarrow> nat \<Rightarrow> nat \<Rightarrow> nat \<Rightarrow> buildState \<Rightarrow> buildState" where
  "setDelta entropy nStates s i b =
     (let M = machine b; v = storeInt32 (drawMod entropy (cursor b) nStates)
      in \<lparr> machine = M\<lparr>delta := (delta M)[s := (delta M ! s)[i := v]]\<rparr>,
           cursor = cursor b + 1 \<rparr>)"

definition fillDelta :: "32 word list \<Rightarrow> nat \<Rightarrow> nat \<Rightarrow> buildState \<Rightarrow> buildState" where
  "fillDelta entropy nStates mAlphabet b =
     fold (\<lambda>s. fold (setDelta entropy nStates s) [0..<mAlphabet]) [0..<nStates] b"

text \<open>
  The write-back of one state:
  \<^verbatim>\<open>val = perm[i]; machine.lambdaTable[s][i] = val; machine.lambdaInv[s][val] = i\<close>.
\<close>

definition setLambda :: "nat \<Rightarrow> 8 word list \<Rightarrow> nat \<Rightarrow> MealyMachine \<Rightarrow> MealyMachine" where
  "setLambda s perm i M =
     (let val = perm ! i
      in M\<lparr> lambdaTable := (lambdaTable M)[s := (lambdaTable M ! s)[i := toInt32 (uint val)]],
            lambdaInv := (lambdaInv M)[s := (lambdaInv M ! s)[unat val := toInt32 (int i)]] \<rparr>)"

definition fillLambdaState :: "32 word list \<Rightarrow> nat \<Rightarrow> nat \<Rightarrow> buildState \<Rightarrow> buildState" where
  "fillLambdaState entropy mAlphabet s b =
     (let pc = shuffle entropy mAlphabet (cursor b)
      in \<lparr> machine = fold (setLambda s (fst pc)) [0..<mAlphabet] (machine b),
           cursor = snd pc \<rparr>)"

definition fillLambda :: "32 word list \<Rightarrow> nat \<Rightarrow> nat \<Rightarrow> buildState \<Rightarrow> buildState" where
  "fillLambda entropy nStates mAlphabet b =
     fold (fillLambdaState entropy mAlphabet) [0..<nStates] b"

text \<open>
  The body of \<open>buildMealyMachine\<close> after the stream is drawn, with its locals at the
  \<open>return\<close>; and the function itself, which asks the generator for
  \<open>(nStates * mAlphabet) * 2\<close> values and returns the machine.
\<close>

definition fillTables :: "32 word list \<Rightarrow> nat \<Rightarrow> nat \<Rightarrow> buildState" where
  "fillTables entropy nStates mAlphabet =
     fillLambda entropy nStates mAlphabet
       (fillDelta entropy nStates mAlphabet
          \<lparr> machine = newMealyMachine nStates mAlphabet, cursor = 0 \<rparr>)"

definition totalNeeded :: "nat \<Rightarrow> nat \<Rightarrow> nat" where
  "totalNeeded nStates mAlphabet = (nStates * mAlphabet) * 2"

definition buildLocals :: "LogisticMoore \<Rightarrow> nat \<Rightarrow> nat \<Rightarrow> buildState" where
  "buildLocals mooreGen nStates mAlphabet =
     fillTables (fst (generateStream mooreGen (totalNeeded nStates mAlphabet))) nStates mAlphabet"

definition buildMealyMachine :: "LogisticMoore \<Rightarrow> nat \<Rightarrow> nat \<Rightarrow> MealyMachine" where
  "buildMealyMachine mooreGen nStates mAlphabet = machine (buildLocals mooreGen nStates mAlphabet)"

section \<open>The tables in closed form\<close>

text \<open>
  What the fill loops leave in the tables, written without the loops: the row of
  \<open>delta\<close> drawn from cursor \<open>c\<close> on, and the rows of \<open>lambdaTable\<close> and \<open>lambdaInv\<close>
  that the write-back derives from a permutation.
\<close>

definition deltaRow :: "32 word list \<Rightarrow> nat \<Rightarrow> nat \<Rightarrow> nat \<Rightarrow> int list" where
  "deltaRow entropy nStates mAlphabet c =
     map (\<lambda>i. storeInt32 (drawMod entropy (c + i) nStates)) [0..<mAlphabet]"

definition lambdaRow :: "8 word list \<Rightarrow> int list" where
  "lambdaRow perm = map (\<lambda>i. toInt32 (uint (perm ! i))) [0..<length perm]"

definition lambdaInvRow :: "8 word list \<Rightarrow> int list \<Rightarrow> int list" where
  "lambdaInvRow perm row =
     fold (\<lambda>i r. r[unat (perm ! i) := toInt32 (int i)]) [0..<length perm] row"

section \<open>The invariant of a built machine, and the cipher as the specification words it\<close>

text \<open>
  What \<open>buildMealyMachine\<close> establishes for an alphabet of 256 symbols: the three
  tables have \<open>this.n\<close> rows of 256 entries, every entry of \<open>delta\<close> is a state, every
  entry of \<open>lambdaTable\<close> and \<open>lambdaInv\<close> is a symbol, and \<open>lambdaInv[s]\<close> undoes
  \<open>lambdaTable[s]\<close>.
\<close>

definition wellFormed :: "MealyMachine \<Rightarrow> bool" where
  "wellFormed M \<longleftrightarrow>
     0 < this_n M \<and> length (delta M) = this_n M \<and>
     length (lambdaTable M) = this_n M \<and> length (lambdaInv M) = this_n M \<and>
     (\<forall>s \<in> {0..<this_n M}.
        length (delta M ! s) = 256 \<and> length (lambdaTable M ! s) = 256 \<and>
        length (lambdaInv M ! s) = 256 \<and>
        (\<forall>x \<in> {0..<256}.
           0 \<le> delta M ! s ! x \<and> delta M ! s ! x < int (this_n M) \<and>
           0 \<le> lambdaTable M ! s ! x \<and> lambdaTable M ! s ! x < 256 \<and>
           0 \<le> lambdaInv M ! s ! x \<and> lambdaInv M ! s ! x < 256 \<and>
           lambdaInv M ! s ! nat (lambdaTable M ! s ! x) = int x))"

text \<open>
  The state after \<open>j\<close> warm-up transitions from state 0:
  \<open>currentState = delta[currentState][j mod 256]\<close>.
\<close>

fun warmState :: "MealyMachine \<Rightarrow> nat \<Rightarrow> int" where
  "warmState M 0 = 0"
| "warmState M (Suc j) = delta M ! nat (warmState M j) ! (j mod 256)"

text \<open>
  Encryption: the state before byte \<open>i\<close>, with
  \<open>nextState = (delta[s][x] + i) mod n\<close>, and the output \<open>lambda[s][x]\<close> of byte \<open>i\<close>.
\<close>

fun encState :: "MealyMachine \<Rightarrow> 8 word list \<Rightarrow> nat \<Rightarrow> int" where
  "encState M bytes 0 = warmState M 500"
| "encState M bytes (Suc i) =
     (delta M ! nat (encState M bytes i) ! unat (bytes ! i) + int i) mod int (this_n M)"

definition encOutput :: "MealyMachine \<Rightarrow> 8 word list \<Rightarrow> nat \<Rightarrow> int" where
  "encOutput M bytes i = lambdaTable M ! nat (encState M bytes i) ! unat (bytes ! i)"

definition encTrajectoryStep :: "MealyMachine \<Rightarrow> 8 word list \<Rightarrow> nat \<Rightarrow> TrajectoryStep" where
  "encTrajectoryStep M bytes t =
     \<lparr> step_t = t, step_s = Some (encState M bytes t), step_i = Some (uint (bytes ! t)),
       step_sPrime = Some (encState M bytes (Suc t)), step_o = Some (encOutput M bytes t) \<rparr>"

text \<open>
  Decryption: \<open>recovered = lambdaInverse[s][c]\<close> and
  \<open>nextState = (delta[s][recovered] + i) mod n\<close>.
\<close>

fun decState :: "MealyMachine \<Rightarrow> 8 word list \<Rightarrow> nat \<Rightarrow> int" where
  "decState M bytes 0 = warmState M 500"
| "decState M bytes (Suc i) =
     (delta M ! nat (decState M bytes i)
        ! nat (lambdaInv M ! nat (decState M bytes i) ! unat (bytes ! i)) + int i)
     mod int (this_n M)"

definition decOutput :: "MealyMachine \<Rightarrow> 8 word list \<Rightarrow> nat \<Rightarrow> int" where
  "decOutput M bytes i = lambdaInv M ! nat (decState M bytes i) ! unat (bytes ! i)"

definition decTrajectoryStep :: "MealyMachine \<Rightarrow> 8 word list \<Rightarrow> nat \<Rightarrow> TrajectoryStep" where
  "decTrajectoryStep M bytes t =
     \<lparr> step_t = t, step_s = Some (decState M bytes t), step_i = Some (decOutput M bytes t),
       step_sPrime = Some (decState M bytes (Suc t)), step_o = Some (uint (bytes ! t)) \<rparr>"

text \<open>
  The permutation invariant: in every state \<open>s\<close>, the row \<open>lambdaTable[s]\<close> lists every
  symbol of \<open>[0, m)\<close> exactly once, and \<open>lambdaInv[s]\<close> is its inverse, in both
  directions.
\<close>

definition permutationInvariant :: "MealyMachine \<Rightarrow> bool" where
  "permutationInvariant M \<longleftrightarrow>
     length (lambdaTable M) = this_n M \<and> length (lambdaInv M) = this_n M \<and>
     (\<forall>s \<in> {0..<this_n M}.
        length (lambdaTable M ! s) = this_m M \<and> length (lambdaInv M ! s) = this_m M \<and>
        distinct (lambdaTable M ! s) \<and> set (lambdaTable M ! s) = {0..<int (this_m M)} \<and>
        (\<forall>x \<in> {0..<this_m M}. lambdaInv M ! s ! nat (lambdaTable M ! s ! x) = int x) \<and>
        (\<forall>y \<in> {0..<this_m M}. lambdaTable M ! s ! nat (lambdaInv M ! s ! y) = int y))"

text \<open>
  The loops stopped early: the warm-up after \<open>j\<close> transitions, and the byte loop of
  \<open>encryptBytes\<close> and of \<open>decryptBytes\<close> after \<open>k\<close> bytes. They expose
  \<open>this.currentState\<close> before and after every step.
\<close>

definition warmPrefix :: "MealyMachine \<Rightarrow> nat \<Rightarrow> error + int option" where
  "warmPrefix M j = forM [0..<j] (warmStep M) (Some 0)"

definition encryptPrefix :: "MealyMachine \<Rightarrow> 8 word list \<Rightarrow> nat \<Rightarrow> error + loopState" where
  "encryptPrefix M bytes k =
     (case resetAndWarm M of
        Inl e \<Rightarrow> Inl e
      | Inr warm \<Rightarrow>
          forM [0..<k] (encryptStep M bytes)
            \<lparr> cur = warm, outBytes = replicate (length bytes) 0, trajectory = [] \<rparr>)"

definition decryptPrefix :: "MealyMachine \<Rightarrow> 8 word list \<Rightarrow> nat \<Rightarrow> error + loopState" where
  "decryptPrefix M bytes k =
     (case resetAndWarm M of
        Inl e \<Rightarrow> Inl e
      | Inr warm \<Rightarrow>
          forM [0..<k] (decryptStep M bytes)
            \<lparr> cur = warm, outBytes = replicate (length bytes) 0, trajectory = [] \<rparr>)"

text \<open>The key \<open>"test"\<close> as UTF-16 code units, and the bytes of \<open>"Hi"\<close>.\<close>

definition testKey :: jsstring where
  "testKey = [116, 101, 115, 116]"

definition testPlain :: "8 word list" where
  "testPlain = [72, 105]"

section \<open>Security metrics\<close>

text \<open>
  \<open>Number.prototype.toFixed(f)\<close> on a finite number below \<open>10^21\<close>: the sign, then the
  digits of the integer \<open>n\<close> for which \<open>n / 10^f\<close> is nearest to the number (the larger
  \<open>n\<close> of two), left-padded with zeros to \<open>f + 1\<close> digits, with a point before the
  last \<open>f\<close> digits.
\<close>

definition digitChar :: "nat \<Rightarrow> char" where
  "digitChar d = ''0123456789'' ! d"

fun decimalDigits :: "nat \<Rightarrow> string" where
  "decimalDigits n =
     (if n < 10 then [digitChar n] else decimalDigits (n div 10) @ [digitChar (n mod 10)])"

declare decimalDigits.simps [simp del]

definition formatFixed :: "nat \<Rightarrow> nat \<Rightarrow> string" where
  "formatFixed f n =
     (let m = decimalDigits n;
          padded = replicate (Suc f - length m) CHR ''0'' @ m;
          k = length padded
      in if f = 0 then m else take (k - f) padded @ ''.'' @ drop (k - f) padded)"

definition toFixed :: "nat \<Rightarrow> number \<Rightarrow> string" where
  "toFixed f x =
     (if x < 0 then ''-'' else []) @ formatFixed f (nat \<lfloor>\<bar>x\<bar> * 10 ^ f + 1 / 2\<rfloor>)"

text \<open>
  \<open>calculateNPCR\<close>. An argument is an array of bytes, or \<open>None\<close> for \<open>null\<close> and
  \<open>undefined\<close>, which \<open>!plain\<close> catches. Two empty arrays pass the guard: then
  \<open>0 / 0\<close> is \<open>NaN\<close>, and \<open>NaN.toFixed(2)\<close> is \<open>"NaN"\<close>.
\<close>

definition countDiff :: "8 word list \<Rightarrow> 8 word list \<Rightarrow> nat" where
  "countDiff plain cipher =
     fold (\<lambda>i diff. if plain ! i \<noteq> cipher ! i then diff + 1 else diff) [0..<length plain] 0"

definition calculateNPCR :: "8 word list option \<Rightarrow> 8 word list option \<Rightarrow> string" where
  "calculateNPCR plain cipher =
     (case plain of
        None \<Rightarrow> ''0.00''
      | Some p \<Rightarrow>
          (case cipher of
             None \<Rightarrow> ''0.00''
           | Some c \<Rightarrow>
               if length p \<noteq> length c then ''0.00''
               else if length p = 0 then ''NaN''
               else toFixed 2 (fmul (fdiv (of_nat (countDiff p c)) (of_nat (length p))) 100)))"

text \<open>
  \<open>calculateEntropy\<close>. The histogram \<open>freq[val] = (freq[val] || 0) + 1\<close> is keyed by
  the byte values, and \<open>Object.values\<close> lists the counts of integer keys in ascending
  order of the key. \<open>Math.log2\<close> is approximated by the implementation (ECMAScript
  fixes only some of its values, among them \<open>Math.log2(1) = 0\<close>): it is a parameter.
\<close>

definition countValue :: "8 word \<Rightarrow> (8 word \<Rightarrow> nat option) \<Rightarrow> (8 word \<Rightarrow> nat option)" where
  "countValue val freq = freq(val \<mapsto> (case freq val of None \<Rightarrow> 0 | Some c \<Rightarrow> c) + 1)"

definition histogram :: "8 word list \<Rightarrow> (8 word \<Rightarrow> nat option)" where
  "histogram data = fold countValue data Map.empty"

definition objectValues :: "(8 word \<Rightarrow> nat option) \<Rightarrow> nat list" where
  "objectValues freq = List.map_filter freq (map of_nat [0..<256])"

definition calculateEntropy :: "(number \<Rightarrow> number) \<Rightarrow> 8 word list option \<Rightarrow> string" where
  "calculateEntropy log2 data =
     (case data of
        None \<Rightarrow> ''0.0000''
      | Some d \<Rightarrow>
          if length d = 0 then ''0.0000''
          else (let freq = histogram d; total = length d;
                    entropy =
                      fold (\<lambda>count entropy.
                              (let p = fdiv (of_nat count) (of_nat total)
                               in fsub entropy (fmul p (log2 p))))
                        (objectValues freq) 0
                in toFixed 4 entropy))"

text \<open>
  The metrics as the specification words them: the number of positions where the
  bytes differ; and, for the entropy, the observed values in ascending order (the bins
  of nonzero probability), the probability of a value, and the sum of
  \<open>- p * log2 p\<close> over the bins, accumulated in the arithmetic of numbers.
\<close>

definition differingPositions :: "8 word list \<Rightarrow> 8 word list \<Rightarrow> nat" where
  "differingPositions a b = card {i. i < length a \<and> a ! i \<noteq> b ! i}"

definition observedValues :: "8 word list \<Rightarrow> 8 word list" where
  "observedValues data = filter (\<lambda>v. v \<in> set data) (map of_nat [0..<256])"

definition probability :: "8 word list \<Rightarrow> 8 word \<Rightarrow> number" where
  "probability data v = fdiv (of_nat (count_list data v)) (of_nat (length data))"

definition entropySum :: "(number \<Rightarrow> number) \<Rightarrow> 8 word list \<Rightarrow> number" where
  "entropySum log2 data =
     fold (\<lambda>v entropy. fsub entropy (fmul (probability data v) (log2 (probability data v))))
       (observedValues data) 0"

text \<open>A \<open>log2\<close> that is exact on the powers of two, for the examples.\<close>

definition log2Floor :: "number \<Rightarrow> number" where
  "log2Floor x = of_int (ilog2 x)"

section \<open>The key hash wraps as a 32-bit accumulator\<close>

lemma toInt32_range: "- (2 ^ 31) \<le> toInt32 x \<and> toInt32 x < 2 ^ 31"
  unfolding toInt32_def
  using pos_mod_bound [of "2 ^ 32" "x + 2 ^ 31"] pos_mod_sign [of "2 ^ 32" "x + 2 ^ 31"]
  by simp

lemma toInt32_id: "- (2 ^ 31) \<le> x \<Longrightarrow> x < 2 ^ 31 \<Longrightarrow> toInt32 x = x"
  unfolding toInt32_def by simp

lemma toInt32_mod: "toInt32 x mod 2 ^ 32 = x mod 2 ^ 32"
  unfolding toInt32_def by (simp add: mod_simps)

lemma toInt32_cong: "x mod 2 ^ 32 = y mod 2 ^ 32 \<Longrightarrow> toInt32 x = toInt32 y"
proof -
  assume "x mod 2 ^ 32 = y mod 2 ^ 32"
  then have "(x + 2 ^ 31) mod 2 ^ 32 = (y + 2 ^ 31) mod 2 ^ 32"
    by (rule mod_add_cong) simp
  then show ?thesis unfolding toInt32_def by simp
qed

lemma wrapSigned32_toInt32: "wrapSigned32 x = toInt32 x"
proof -
  define u where "u = x mod 4294967296"
  have u: "0 \<le> u" "u < 4294967296"
    by (simp_all add: u_def)
  have e: "(x + 2147483648) mod 4294967296 = (u + 2147483648) mod 4294967296"
    unfolding u_def by (simp add: mod_add_left_eq)
  show ?thesis
  proof (cases "u < 2147483648")
    case True
    then have "(u + 2147483648) mod 4294967296 = u + 2147483648"
      using u by (simp add: mod_pos_pos_trivial)
    with True e show ?thesis
      by (simp add: wrapSigned32_def toInt32_def u_def)
  next
    case False
    have "(u + 2147483648) mod 4294967296 = (u + 2147483648 - 4294967296) mod 4294967296"
      by (simp only: mod_diff_right_eq [symmetric, of _ 4294967296 4294967296] mod_self diff_zero)
    also have "\<dots> = u - 2147483648"
      using u False by (simp add: mod_pos_pos_trivial)
    finally show ?thesis
      using False e by (simp add: wrapSigned32_def toInt32_def u_def)
  qed
qed

lemma hashStep_spec: "hashStep h c = wrapSigned32 (h * 31 + uint c)"
proof -
  have a: "(toInt32 h * 32) mod 2 ^ 32 = (h * 32) mod 2 ^ 32"
    by (rule mod_mult_cong [OF toInt32_mod refl])
  have b: "toInt32 (toInt32 h * 32) mod 2 ^ 32 = (h * 32) mod 2 ^ 32"
    using a by (simp only: toInt32_mod)
  have "(toInt32 (toInt32 h * 32) - h + uint c) mod 2 ^ 32 = (h * 32 - h + uint c) mod 2 ^ 32"
    by (rule mod_add_cong [OF mod_diff_cong [OF b refl] refl])
  moreover have "h * 32 - h + uint c = h * 31 + uint c"
    by simp
  ultimately have "(toInt32 (toInt32 h * 32) - h + uint c) mod 2 ^ 32 = (h * 31 + uint c) mod 2 ^ 32"
    by (simp only:)
  then have "toInt32 (toInt32 (toInt32 h * 32) - h + uint c) = toInt32 (h * 31 + uint c)"
    by (rule toInt32_cong)
  then show ?thesis
    unfolding hashStep_def shl32_def wrapSigned32_toInt32 by simp
qed

lemma foldl_hashStep_spec: "foldl hashStep h key = hashSpec h key"
  by (induction key arbitrary: h) (simp_all add: hashStep_spec)

lemma keyHash_range: "- (2 ^ 31) \<le> keyHash key \<and> keyHash key < 2 ^ 31"
proof -
  have "- (2 ^ 31) \<le> foldl hashStep h key \<and> foldl hashStep h key < 2 ^ 31"
    if "- (2 ^ 31) \<le> h \<and> h < 2 ^ 31" for h
    using that
  proof (induction key arbitrary: h)
    case Nil
    then show ?case by simp
  next
    case (Cons c key)
    have "- (2 ^ 31) \<le> hashStep h c \<and> hashStep h c < 2 ^ 31"
      unfolding hashStep_def by (rule toInt32_range)
    then show ?case using Cons.IH by simp
  qed
  then show ?thesis unfolding keyHash_def by simp
qed

text \<open>The hash of \<open>"test"\<close>, and the seed it gives.\<close>

lemma keyHash_testKey: "keyHash testKey = 3556498"
  by code_simp

lemma initializeSeed_testKey: "initializeSeed testKey = 4111768445390753 / 9007199254740992"
  by code_simp

section \<open>Counted loops over arrays\<close>

lemma fold_upt_Suc: "fold f [0..<Suc k] x = f k (fold f [0..<k] x)"
  by simp

lemma forM_append:
  "forM (ks @ js) body st =
     (case forM ks body st of Inl e \<Rightarrow> Inl e | Inr st' \<Rightarrow> forM js body st')"
  by (induction ks arbitrary: st) (auto split: sum.splits)

lemma forM_snoc:
  "forM (ks @ [k]) body st =
     (case forM ks body st of Inl e \<Rightarrow> Inl e | Inr st' \<Rightarrow> body k st')"
  by (simp add: forM_append split: sum.splits)

lemma update_prefix_drop:
  assumes "j < length row" and "length pre = j"
  shows "(pre @ drop j row)[j := v] = (pre @ [v]) @ drop (Suc j) row"
proof -
  have "drop j row = row ! j # drop (Suc j) row"
    using assms(1) by (simp add: Cons_nth_drop_Suc)
  then show ?thesis
    using assms(2) by (simp add: list_update_append)
qed

text \<open>Filling a row cell by cell, left to right.\<close>

lemma fold_fill_row:
  "j \<le> length row \<Longrightarrow>
   fold (\<lambda>i r. r[i := f i]) [0..<j] row = map f [0..<j] @ drop j row"
proof (induction j)
  case 0
  then show ?case by simp
next
  case (Suc j)
  then have "fold (\<lambda>i r. r[i := f i]) [0..<Suc j] row = (map f [0..<j] @ drop j row)[j := f j]"
    by simp
  also have "\<dots> = (map f [0..<j] @ [f j]) @ drop (Suc j) row"
    using Suc.prems by (intro update_prefix_drop) simp_all
  finally show ?case by simp
qed

lemma fold_fill_row_full:
  "length row = m \<Longrightarrow> fold (\<lambda>i r. r[i := f i]) [0..<m] row = map f [0..<m]"
  using fold_fill_row [of m row f] by simp

section \<open>The transition fill\<close>

text \<open>The row that the inner loop writes for state \<open>s\<close>, starting at cursor \<open>c\<close>.\<close>

lemma fold_setDelta:
  assumes "s < length (delta (machine b))" and "j \<le> length (delta (machine b) ! s)"
  shows "fold (setDelta entropy nStates s) [0..<j] b =
         \<lparr> machine = (machine b)\<lparr>delta := (delta (machine b))
              [s := map (\<lambda>i. storeInt32 (drawMod entropy (cursor b + i) nStates)) [0..<j]
                    @ drop j (delta (machine b) ! s)]\<rparr>,
           cursor = cursor b + j \<rparr>"
  using assms(2)
proof (induction j)
  case 0
  then show ?case by simp
next
  case (Suc j)
  let ?f = "\<lambda>i. storeInt32 (drawMod entropy (cursor b + i) nStates)"
  have upd: "(map ?f [0..<j] @ drop j (delta (machine b) ! s))[j := ?f j]
           = (map ?f [0..<j] @ [?f j]) @ drop (Suc j) (delta (machine b) ! s)"
    using Suc.prems by (intro update_prefix_drop) simp_all
  have "fold (setDelta entropy nStates s) [0..<Suc j] b
      = setDelta entropy nStates s j (fold (setDelta entropy nStates s) [0..<j] b)"
    by simp
  also have "\<dots> = setDelta entropy nStates s j
        \<lparr> machine = (machine b)\<lparr>delta := (delta (machine b))
              [s := map ?f [0..<j] @ drop j (delta (machine b) ! s)]\<rparr>,
           cursor = cursor b + j \<rparr>"
    using Suc by simp
  also have "\<dots> = \<lparr> machine = (machine b)\<lparr>delta := (delta (machine b))
              [s := (map ?f [0..<j] @ [?f j]) @ drop (Suc j) (delta (machine b) ! s)]\<rparr>,
           cursor = cursor b + Suc j \<rparr>"
    using assms(1) upd by (simp add: setDelta_def Let_def)
  finally show ?case by simp
qed

lemma fold_setDelta_row:
  assumes "s < length (delta (machine b))" and "length (delta (machine b) ! s) = mAlphabet"
  shows "fold (setDelta entropy nStates s) [0..<mAlphabet] b =
         \<lparr> machine = (machine b)\<lparr>delta := (delta (machine b))
              [s := map (\<lambda>i. storeInt32 (drawMod entropy (cursor b + i) nStates)) [0..<mAlphabet]]\<rparr>,
           cursor = cursor b + mAlphabet \<rparr>"
  using fold_setDelta [OF assms(1), of mAlphabet entropy nStates] assms(2) by simp

text \<open>The table after the outer loop has run over the states below \<open>k\<close>.\<close>

lemma fillDelta_prefix:
  assumes "\<forall>row \<in> set (delta (machine b)). length row = mAlphabet"
    and "k \<le> length (delta (machine b))"
  shows "fold (\<lambda>s. fold (setDelta entropy nStates s) [0..<mAlphabet]) [0..<k] b =
         \<lparr> machine = (machine b)\<lparr>delta :=
              map (\<lambda>s. deltaRow entropy nStates mAlphabet (cursor b + s * mAlphabet)) [0..<k]
              @ drop k (delta (machine b))\<rparr>,
           cursor = cursor b + k * mAlphabet \<rparr>"
  using assms(2)
proof (induction k)
  case 0
  then show ?case by simp
next
  case (Suc k)
  let ?r = "\<lambda>s. deltaRow entropy nStates mAlphabet (cursor b + s * mAlphabet)"
  let ?b = "\<lparr> machine = (machine b)\<lparr>delta := map ?r [0..<k] @ drop k (delta (machine b))\<rparr>,
              cursor = cursor b + k * mAlphabet \<rparr>"
  have len: "length (delta (machine b) ! k) = mAlphabet"
    using assms(1) Suc.prems by simp
  have row: "(map ?r [0..<k] @ drop k (delta (machine b))) ! k = delta (machine b) ! k"
    using Suc.prems by (simp add: nth_append)
  have upd: "(map ?r [0..<k] @ drop k (delta (machine b)))[k := ?r k]
           = (map ?r [0..<k] @ [?r k]) @ drop (Suc k) (delta (machine b))"
    using Suc.prems by (intro update_prefix_drop) simp_all
  have "fold (\<lambda>s. fold (setDelta entropy nStates s) [0..<mAlphabet]) [0..<Suc k] b
      = fold (setDelta entropy nStates k) [0..<mAlphabet] ?b"
    using Suc by simp
  also have "\<dots> = \<lparr> machine = (machine ?b)\<lparr>delta := (delta (machine ?b))
              [k := map (\<lambda>i. storeInt32 (drawMod entropy (cursor ?b + i) nStates)) [0..<mAlphabet]]\<rparr>,
           cursor = cursor ?b + mAlphabet \<rparr>"
    using Suc.prems len row by (intro fold_setDelta_row) simp_all
  also have "\<dots> = \<lparr> machine = (machine b)\<lparr>delta :=
              (map ?r [0..<k] @ [?r k]) @ drop (Suc k) (delta (machine b))\<rparr>,
           cursor = cursor b + Suc k * mAlphabet \<rparr>"
    using upd by (simp add: deltaRow_def add.assoc)
  finally show ?case by simp
qed

lemma fillDelta_new:
  "fillDelta entropy nStates mAlphabet \<lparr> machine = newMealyMachine nStates mAlphabet, cursor = 0 \<rparr> =
     \<lparr> machine = (newMealyMachine nStates mAlphabet)\<lparr>delta :=
          map (\<lambda>s. deltaRow entropy nStates mAlphabet (s * mAlphabet)) [0..<nStates]\<rparr>,
       cursor = nStates * mAlphabet \<rparr>"
proof -
  let ?b = "\<lparr> machine = newMealyMachine nStates mAlphabet, cursor = 0 \<rparr>"
  have "\<forall>row \<in> set (delta (machine ?b)). length row = mAlphabet"
    by (simp add: newMealyMachine_def)
  moreover have "nStates \<le> length (delta (machine ?b))"
    by (simp add: newMealyMachine_def)
  ultimately have "fold (\<lambda>s. fold (setDelta entropy nStates s) [0..<mAlphabet]) [0..<nStates] ?b =
         \<lparr> machine = (machine ?b)\<lparr>delta :=
              map (\<lambda>s. deltaRow entropy nStates mAlphabet (cursor ?b + s * mAlphabet)) [0..<nStates]
              @ drop nStates (delta (machine ?b))\<rparr>,
           cursor = cursor ?b + nStates * mAlphabet \<rparr>"
    by (rule fillDelta_prefix)
  then show ?thesis
    by (simp add: fillDelta_def newMealyMachine_def)
qed

section \<open>The shuffle\<close>

lemma js_rem_nonneg: "0 \<le> a \<Longrightarrow> 0 < b \<Longrightarrow> js_rem a b = Some (a mod b)"
  by (cases "a = 0") (simp_all add: js_rem_def)

lemma drawMod_in_range:
  "c < length entropy \<Longrightarrow> 0 < k \<Longrightarrow> drawMod entropy c k = Some (uint (entropy ! c) mod int k)"
  by (simp add: drawMod_def entropyAt_def js_rem_nonneg)

lemma identityPerm_eq: "identityPerm mAlphabet = map of_nat [0..<mAlphabet]"
  unfolding identityPerm_def by (rule fold_fill_row_full) simp

lemma shuffleStep_snd: "snd (shuffleStep entropy i pc) = snd pc + 1"
  by (simp add: shuffleStep_def Let_def)

lemma shuffleStep_length: "length (fst (shuffleStep entropy i pc)) = length (fst pc)"
  by (simp add: shuffleStep_def Let_def permSet_def split: option.splits)

text \<open>One step of the shuffle swaps two cells when its draw is inside the stream.\<close>

lemma shuffleStep_swap:
  assumes "snd pc < length entropy" and "i < length (fst pc)"
  shows "\<exists>j \<le> i. fst (shuffleStep entropy i pc) = (fst pc)[i := fst pc ! j, j := fst pc ! i]"
proof -
  define j where "j = nat (uint (entropy ! snd pc) mod int (i + 1))"
  have d: "drawMod entropy (snd pc) (Suc i) = Some (int j)"
    using assms(1) drawMod_in_range [of "snd pc" entropy "Suc i"] by (simp add: j_def)
  have "int j < int (i + 1)"
    unfolding j_def by simp
  then have j: "j \<le> i" by simp
  then have "j < length (fst pc)" using assms(2) by simp
  then have "fst (shuffleStep entropy i pc) = (fst pc)[i := fst pc ! j, j := fst pc ! i]"
    by (simp add: shuffleStep_def Let_def d permAt_def permSet_def storeUint8_def)
  with j show ?thesis by blast
qed

lemma shuffleStep_set:
  assumes "snd pc < length entropy" and "i < length (fst pc)"
  shows "set (fst (shuffleStep entropy i pc)) = set (fst pc)"
    and "distinct (fst (shuffleStep entropy i pc)) = distinct (fst pc)"
proof -
  obtain j where j: "j \<le> i"
    and e: "fst (shuffleStep entropy i pc) = (fst pc)[i := fst pc ! j, j := fst pc ! i]"
    using shuffleStep_swap [OF assms] by blast
  have "j < length (fst pc)" using j assms(2) by simp
  then show "set (fst (shuffleStep entropy i pc)) = set (fst pc)"
    using assms(2) e by (simp add: set_swap)
  show "distinct (fst (shuffleStep entropy i pc)) = distinct (fst pc)"
    using assms(2) \<open>j < length (fst pc)\<close> e by (simp add: distinct_swap)
qed

lemma fold_shuffleStep_snd: "snd (fold (shuffleStep entropy) ks pc) = snd pc + length ks"
  by (induction ks arbitrary: pc) (simp_all add: shuffleStep_snd)

lemma fold_shuffleStep_length: "length (fst (fold (shuffleStep entropy) ks pc)) = length (fst pc)"
  by (induction ks arbitrary: pc) (simp_all add: shuffleStep_length)

lemma fold_shuffleStep_set:
  assumes "snd pc + length ks \<le> length entropy" and "\<forall>i \<in> set ks. i < length (fst pc)"
  shows "set (fst (fold (shuffleStep entropy) ks pc)) = set (fst pc)
       \<and> distinct (fst (fold (shuffleStep entropy) ks pc)) = distinct (fst pc)"
  using assms
proof (induction ks arbitrary: pc)
  case Nil
  then show ?case by simp
next
  case (Cons i ks)
  have s: "snd pc < length entropy" and i: "i < length (fst pc)"
    using Cons.prems by simp_all
  have "snd (shuffleStep entropy i pc) + length ks \<le> length entropy"
    using Cons.prems by (simp add: shuffleStep_snd)
  moreover have "\<forall>k \<in> set ks. k < length (fst (shuffleStep entropy i pc))"
    using Cons.prems by (simp add: shuffleStep_length)
  ultimately have "set (fst (fold (shuffleStep entropy) ks (shuffleStep entropy i pc)))
        = set (fst (shuffleStep entropy i pc))
      \<and> distinct (fst (fold (shuffleStep entropy) ks (shuffleStep entropy i pc)))
        = distinct (fst (shuffleStep entropy i pc))"
    by (rule Cons.IH)
  then show ?case
    using shuffleStep_set [OF s i] by simp
qed

lemma shuffle_cursor: "snd (shuffle entropy mAlphabet c) = c + (mAlphabet - 1)"
  by (simp add: shuffle_def fold_shuffleStep_snd)

lemma shuffle_length: "length (fst (shuffle entropy mAlphabet c)) = mAlphabet"
  by (simp add: shuffle_def fold_shuffleStep_length identityPerm_eq)

lemma distinct_bytes: "mAlphabet \<le> 256 \<Longrightarrow> distinct (map of_nat [0..<mAlphabet] :: 8 word list)"
proof -
  assume m: "mAlphabet \<le> 256"
  have "inj_on (of_nat :: nat \<Rightarrow> 8 word) {0..<mAlphabet}"
  proof (rule inj_onI)
    fix x y
    assume "x \<in> {0..<mAlphabet}" "y \<in> {0..<mAlphabet}" "(of_nat x :: 8 word) = of_nat y"
    then have "unat (of_nat x :: 8 word) = unat (of_nat y :: 8 word)" "x < 256" "y < 256"
      using m by simp_all
    then show "x = y" by (simp add: unat_of_nat)
  qed
  then show ?thesis by (simp add: distinct_map)
qed

text \<open>
  For an alphabet of at most 256 symbols, a shuffle whose draws all lie inside the
  stream returns a permutation of the symbols.
\<close>

lemma shuffle_permutation:
  assumes "mAlphabet \<le> 256" and "c + (mAlphabet - 1) \<le> length entropy"
  shows "set (fst (shuffle entropy mAlphabet c)) = of_nat ` {0..<mAlphabet}"
    and "distinct (fst (shuffle entropy mAlphabet c))"
proof -
  let ?pc = "(identityPerm mAlphabet, c)"
  have "snd ?pc + length (rev [1..<mAlphabet]) \<le> length entropy"
    using assms(2) by simp
  moreover have "\<forall>i \<in> set (rev [1..<mAlphabet]). i < length (fst ?pc)"
    by (simp add: identityPerm_eq)
  ultimately have "set (fst (fold (shuffleStep entropy) (rev [1..<mAlphabet]) ?pc)) = set (fst ?pc)
       \<and> distinct (fst (fold (shuffleStep entropy) (rev [1..<mAlphabet]) ?pc)) = distinct (fst ?pc)"
    by (rule fold_shuffleStep_set)
  then show "set (fst (shuffle entropy mAlphabet c)) = of_nat ` {0..<mAlphabet}"
    and "distinct (fst (shuffle entropy mAlphabet c))"
    using distinct_bytes [OF assms(1)] by (simp_all add: shuffle_def identityPerm_eq)
qed

section \<open>The output-permutation fill\<close>

lemma fold_setLambda:
  assumes "s < length (lambdaTable M)" and "s < length (lambdaInv M)"
  shows "fold (setLambda s perm) [0..<j] M =
         M\<lparr> lambdaTable := (lambdaTable M)
                [s := fold (\<lambda>i r. r[i := toInt32 (uint (perm ! i))]) [0..<j] (lambdaTable M ! s)],
             lambdaInv := (lambdaInv M)
                [s := fold (\<lambda>i r. r[unat (perm ! i) := toInt32 (int i)]) [0..<j] (lambdaInv M ! s)] \<rparr>"
proof (induction j)
  case 0
  then show ?case by simp
next
  case (Suc j)
  then show ?case
    using assms by (simp add: setLambda_def Let_def)
qed

lemma fold_setLambda_row:
  assumes "s < length (lambdaTable M)" and "s < length (lambdaInv M)"
    and "length (lambdaTable M ! s) = length perm"
  shows "fold (setLambda s perm) [0..<length perm] M =
         M\<lparr> lambdaTable := (lambdaTable M)[s := lambdaRow perm],
             lambdaInv := (lambdaInv M)[s := lambdaInvRow perm (lambdaInv M ! s)] \<rparr>"
proof -
  have "fold (\<lambda>i r. r[i := toInt32 (uint (perm ! i))]) [0..<length perm] (lambdaTable M ! s)
      = lambdaRow perm"
    unfolding lambdaRow_def using assms(3) by (rule fold_fill_row_full)
  then show ?thesis
    using fold_setLambda [OF assms(1,2), of perm "length perm"]
    by (simp add: lambdaInvRow_def)
qed

text \<open>The permutation of state \<open>s\<close> when the fill starts at cursor \<open>c\<close>.\<close>

lemma fillLambdaState_eq:
  assumes "s < length (lambdaTable (machine b))" and "s < length (lambdaInv (machine b))"
    and "length (lambdaTable (machine b) ! s) = mAlphabet"
  shows "fillLambdaState entropy mAlphabet s b =
         \<lparr> machine = (machine b)
             \<lparr> lambdaTable := (lambdaTable (machine b))
                  [s := lambdaRow (fst (shuffle entropy mAlphabet (cursor b)))],
               lambdaInv := (lambdaInv (machine b))
                  [s := lambdaInvRow (fst (shuffle entropy mAlphabet (cursor b)))
                          (lambdaInv (machine b) ! s)] \<rparr>,
           cursor = cursor b + (mAlphabet - 1) \<rparr>"
proof -
  let ?perm = "fst (shuffle entropy mAlphabet (cursor b))"
  have len: "length ?perm = mAlphabet"
    by (rule shuffle_length)
  have "fold (setLambda s ?perm) [0..<length ?perm] (machine b) =
         (machine b)\<lparr> lambdaTable := (lambdaTable (machine b))[s := lambdaRow ?perm],
             lambdaInv := (lambdaInv (machine b))[s := lambdaInvRow ?perm (lambdaInv (machine b) ! s)] \<rparr>"
    using assms len by (intro fold_setLambda_row) simp_all
  then show ?thesis
    unfolding fillLambdaState_def Let_def
    by (simp only: len shuffle_cursor)
qed

lemma fillLambda_prefix:
  assumes "\<forall>row \<in> set (lambdaTable (machine b)). length row = mAlphabet"
    and "k \<le> length (lambdaTable (machine b))" and "k \<le> length (lambdaInv (machine b))"
  shows "fold (fillLambdaState entropy mAlphabet) [0..<k] b =
         \<lparr> machine = (machine b)
             \<lparr> lambdaTable :=
                 map (\<lambda>s. lambdaRow (fst (shuffle entropy mAlphabet (cursor b + s * (mAlphabet - 1)))))
                   [0..<k] @ drop k (lambdaTable (machine b)),
               lambdaInv :=
                 map (\<lambda>s. lambdaInvRow (fst (shuffle entropy mAlphabet (cursor b + s * (mAlphabet - 1))))
                            (lambdaInv (machine b) ! s))
                   [0..<k] @ drop k (lambdaInv (machine b)) \<rparr>,
           cursor = cursor b + k * (mAlphabet - 1) \<rparr>"
  using assms(2,3)
proof (induction k)
  case 0
  then show ?case by simp
next
  case (Suc k)
  let ?P = "\<lambda>s. fst (shuffle entropy mAlphabet (cursor b + s * (mAlphabet - 1)))"
  let ?lt = "map (\<lambda>s. lambdaRow (?P s)) [0..<k] @ drop k (lambdaTable (machine b))"
  let ?li = "map (\<lambda>s. lambdaInvRow (?P s) (lambdaInv (machine b) ! s)) [0..<k]
             @ drop k (lambdaInv (machine b))"
  let ?b = "\<lparr> machine = (machine b)\<lparr> lambdaTable := ?lt, lambdaInv := ?li \<rparr>,
              cursor = cursor b + k * (mAlphabet - 1) \<rparr>"
  have ltk: "?lt ! k = lambdaTable (machine b) ! k" and lik: "?li ! k = lambdaInv (machine b) ! k"
    using Suc.prems by (simp_all add: nth_append)
  have len: "length (lambdaTable (machine b) ! k) = mAlphabet"
    using assms(1) Suc.prems by simp
  have u1: "?lt[k := lambdaRow (?P k)]
          = (map (\<lambda>s. lambdaRow (?P s)) [0..<k] @ [lambdaRow (?P k)])
            @ drop (Suc k) (lambdaTable (machine b))"
    using Suc.prems by (intro update_prefix_drop) simp_all
  have u2: "?li[k := lambdaInvRow (?P k) (lambdaInv (machine b) ! k)]
          = (map (\<lambda>s. lambdaInvRow (?P s) (lambdaInv (machine b) ! s)) [0..<k]
             @ [lambdaInvRow (?P k) (lambdaInv (machine b) ! k)])
            @ drop (Suc k) (lambdaInv (machine b))"
    using Suc.prems by (intro update_prefix_drop) simp_all
  have "fold (fillLambdaState entropy mAlphabet) [0..<Suc k] b = fillLambdaState entropy mAlphabet k ?b"
    using Suc by simp
  also have "\<dots> = \<lparr> machine = (machine ?b)
             \<lparr> lambdaTable := (lambdaTable (machine ?b))
                  [k := lambdaRow (fst (shuffle entropy mAlphabet (cursor ?b)))],
               lambdaInv := (lambdaInv (machine ?b))
                  [k := lambdaInvRow (fst (shuffle entropy mAlphabet (cursor ?b)))
                          (lambdaInv (machine ?b) ! k)] \<rparr>,
           cursor = cursor ?b + (mAlphabet - 1) \<rparr>"
    using Suc.prems ltk len by (intro fillLambdaState_eq) simp_all
  also have "\<dots> = \<lparr> machine = (machine b)
             \<lparr> lambdaTable := (map (\<lambda>s. lambdaRow (?P s)) [0..<k] @ [lambdaRow (?P k)])
                  @ drop (Suc k) (lambdaTable (machine b)),
               lambdaInv := (map (\<lambda>s. lambdaInvRow (?P s) (lambdaInv (machine b) ! s)) [0..<k]
                  @ [lambdaInvRow (?P k) (lambdaInv (machine b) ! k)])
                  @ drop (Suc k) (lambdaInv (machine b)) \<rparr>,
           cursor = cursor b + Suc k * (mAlphabet - 1) \<rparr>"
    using u1 u2 lik by (simp add: add.assoc add.commute)
  finally show ?case by simp
qed

text \<open>The build in closed form: every table, and the cursor at the \<open>return\<close>.\<close>

lemma fillTables_eq:
  "fillTables entropy nStates mAlphabet =
     \<lparr> machine =
         \<lparr> this_n = nStates, this_m = mAlphabet, currentState = Some 0,
           delta = map (\<lambda>s. deltaRow entropy nStates mAlphabet (s * mAlphabet)) [0..<nStates],
           lambdaTable =
             map (\<lambda>s. lambdaRow (fst (shuffle entropy mAlphabet
                          (nStates * mAlphabet + s * (mAlphabet - 1))))) [0..<nStates],
           lambdaInv =
             map (\<lambda>s. lambdaInvRow (fst (shuffle entropy mAlphabet
                          (nStates * mAlphabet + s * (mAlphabet - 1))))
                        (replicate mAlphabet 0)) [0..<nStates] \<rparr>,
       cursor = nStates * mAlphabet + nStates * (mAlphabet - 1) \<rparr>"
proof -
  let ?b = "\<lparr> machine = (newMealyMachine nStates mAlphabet)\<lparr>delta :=
          map (\<lambda>s. deltaRow entropy nStates mAlphabet (s * mAlphabet)) [0..<nStates]\<rparr>,
       cursor = nStates * mAlphabet \<rparr>"
  have "\<forall>row \<in> set (lambdaTable (machine ?b)). length row = mAlphabet"
    by (simp add: newMealyMachine_def)
  moreover have "nStates \<le> length (lambdaTable (machine ?b))"
    and "nStates \<le> length (lambdaInv (machine ?b))"
    by (simp_all add: newMealyMachine_def)
  ultimately have "fold (fillLambdaState entropy mAlphabet) [0..<nStates] ?b =
         \<lparr> machine = (machine ?b)
             \<lparr> lambdaTable :=
                 map (\<lambda>s. lambdaRow (fst (shuffle entropy mAlphabet (cursor ?b + s * (mAlphabet - 1)))))
                   [0..<nStates] @ drop nStates (lambdaTable (machine ?b)),
               lambdaInv :=
                 map (\<lambda>s. lambdaInvRow (fst (shuffle entropy mAlphabet (cursor ?b + s * (mAlphabet - 1))))
                            (lambdaInv (machine ?b) ! s))
                   [0..<nStates] @ drop nStates (lambdaInv (machine ?b)) \<rparr>,
           cursor = cursor ?b + nStates * (mAlphabet - 1) \<rparr>"
    by (rule fillLambda_prefix)
  then show ?thesis
    unfolding fillTables_def fillLambda_def fillDelta_new
    by (simp add: newMealyMachine_def cong: map_cong)
qed

section \<open>The rows of a permutation and of its inverse\<close>

lemma toInt32_byte: "toInt32 (uint (w :: 8 word)) = uint w"
proof -
  have "uint w < 2 ^ 8"
    using uint_bounded [of w] by simp
  then have "uint w < 2 ^ 31"
    by (rule less_le_trans) simp
  moreover have "- (2 ^ 31) \<le> uint w"
    by (rule order_trans [of _ 0]) simp_all
  ultimately show ?thesis by (rule toInt32_id [rotated])
qed

lemma lambdaRow_eq: "lambdaRow perm = map uint perm"
proof -
  have "map uint perm = map uint (map (\<lambda>i. perm ! i) [0..<length perm])"
    by (simp only: map_nth)
  then show ?thesis
    unfolding lambdaRow_def by (simp add: toInt32_byte o_def)
qed

lemma lambdaInvRow_length: "length (lambdaInvRow perm row) = length row"
proof -
  have "length (fold (\<lambda>i r. r[unat (perm ! i) := toInt32 (int i)]) ks row) = length row" for ks
    by (induction ks arbitrary: row) simp_all
  then show ?thesis by (simp add: lambdaInvRow_def)
qed

lemma lambdaInvRow_inverse:
  assumes "distinct perm" and "\<forall>w \<in> set perm. unat w < length row" and "length perm \<le> 2 ^ 31"
    and "i < length perm"
  shows "lambdaInvRow perm row ! unat (perm ! i) = int i"
proof -
  let ?step = "\<lambda>i r. r[unat (perm ! i) := toInt32 (int i)]"
  have "length (fold ?step [0..<j] row) = length row
      \<and> (\<forall>i < j. fold ?step [0..<j] row ! unat (perm ! i) = int i)"
    if "j \<le> length perm" for j
    using that
  proof (induction j)
    case 0
    then show ?case by simp
  next
    case (Suc j)
    let ?r = "fold ?step [0..<j] row"
    have ih: "length ?r = length row" "\<forall>i < j. ?r ! unat (perm ! i) = int i"
      using Suc by simp_all
    have j: "j < length perm" using Suc.prems by simp
    then have inr: "unat (perm ! j) < length ?r"
      using assms(2) ih(1) by simp
    have "int j < 2 ^ 31"
      using j assms(3) by (simp add: order_less_le_trans)
    then have tj: "toInt32 (int j) = int j"
      by (intro toInt32_id) simp_all
    have "(?r[unat (perm ! j) := toInt32 (int j)]) ! unat (perm ! i) = int i" if "i < Suc j" for i
    proof (cases "i = j")
      case True
      then show ?thesis using inr tj by simp
    next
      case False
      then have "i < j" using that by simp
      then have "perm ! i \<noteq> perm ! j"
        using assms(1) j by (simp add: nth_eq_iff_index_eq)
      then have "unat (perm ! i) \<noteq> unat (perm ! j)"
        by (simp add: word_unat_eq_iff)
      then show ?thesis using ih(2) \<open>i < j\<close> by simp
    qed
    then show ?case using ih(1) by simp
  qed
  from this [of "length perm"] assms(4) show ?thesis
    by (simp add: lambdaInvRow_def)
qed

lemma lambdaInvRow_entries:
  assumes "\<forall>v \<in> set row. 0 \<le> v \<and> v < b" and "int (length perm) \<le> b" and "length perm \<le> 2 ^ 31"
  shows "\<forall>v \<in> set (lambdaInvRow perm row). 0 \<le> v \<and> v < b"
proof -
  let ?step = "\<lambda>i r. r[unat (perm ! i) := toInt32 (int i)]"
  have "\<forall>v \<in> set (fold ?step [0..<j] row). 0 \<le> v \<and> v < b" if "j \<le> length perm" for j
    using that
  proof (induction j)
    case 0
    then show ?case using assms(1) by simp
  next
    case (Suc j)
    have "int j < 2 ^ 31"
      using Suc.prems assms(3) by simp
    then have tj: "toInt32 (int j) = int j"
      by (intro toInt32_id) simp_all
    have "int j < b" using Suc.prems assms(2) by simp
    then show ?case
      using Suc tj by (auto dest!: set_update_subset_insert [THEN subsetD])
  qed
  from this [of "length perm"] show ?thesis
    by (simp add: lambdaInvRow_def)
qed

section \<open>The machine that the build returns\<close>

lemma generateStream_length: "length (fst (generateStream g count)) = count"
  by (induction count arbitrary: g) (simp_all add: split_beta Let_def)

lemma unat_of_nat_byte: "x < 256 \<Longrightarrow> unat (of_nat x :: 8 word) = x"
  by (simp add: unat_of_nat)

lemma uint_of_nat_byte: "x < 256 \<Longrightarrow> uint (of_nat x :: 8 word) = int x"
  using unat_of_nat_byte [of x] by (simp add: uint_nat)

lemma unat_byte_less: "unat (w :: 8 word) < 256"
  using unsigned_less [of w, where ?'a = nat] by simp

text \<open>The rows of state \<open>s\<close> derived from a permutation of an alphabet of at most 256.\<close>

lemma permutation_rows:
  assumes "mAlphabet \<le> 256" and "length perm = mAlphabet" and "distinct perm"
    and "set perm = of_nat ` {0..<mAlphabet}" and "length row = mAlphabet"
  shows "distinct (lambdaRow perm)"
    and "set (lambdaRow perm) = {0..<int mAlphabet}"
    and "\<forall>x \<in> {0..<mAlphabet}. lambdaInvRow perm row ! nat (lambdaRow perm ! x) = int x"
    and "\<forall>y \<in> {0..<mAlphabet}. lambdaRow perm ! nat (lambdaInvRow perm row ! y) = int y"
proof -
  have small: "unat w < mAlphabet" if w: "w \<in> set perm" for w
  proof -
    obtain x where "x < mAlphabet" "w = of_nat x"
      using w assms(4) by auto
    then show ?thesis using assms(1) by (simp add: unat_of_nat_byte)
  qed
  show "distinct (lambdaRow perm)"
    unfolding lambdaRow_eq using assms(3) by (simp add: distinct_map inj_on_def word_uint_eq_iff)
  have "uint ` (of_nat :: nat \<Rightarrow> 8 word) ` {0..<mAlphabet} = {0..<int mAlphabet}"
  proof -
    have "uint ` (of_nat :: nat \<Rightarrow> 8 word) ` {0..<mAlphabet} = int ` {0..<mAlphabet}"
      using assms(1) by (auto simp: image_image uint_of_nat_byte intro!: image_cong)
    also have "\<dots> = {0..<int mAlphabet}"
      by (simp add: image_int_atLeastLessThan)
    finally show ?thesis .
  qed
  then show "set (lambdaRow perm) = {0..<int mAlphabet}"
    unfolding lambdaRow_eq using assms(4) by simp
  have len31: "length perm \<le> 2 ^ 31"
    using assms(1,2) by simp
  have inrow: "\<forall>w \<in> set perm. unat w < length row"
    using small assms(5) by simp
  have inv: "lambdaInvRow perm row ! unat (perm ! x) = int x" if "x < mAlphabet" for x
    using that assms(2) by (intro lambdaInvRow_inverse [OF assms(3) inrow len31]) simp
  show fwd: "\<forall>x \<in> {0..<mAlphabet}. lambdaInvRow perm row ! nat (lambdaRow perm ! x) = int x"
    using inv assms(2) by (simp add: lambdaRow_eq)
  show "\<forall>y \<in> {0..<mAlphabet}. lambdaRow perm ! nat (lambdaInvRow perm row ! y) = int y"
  proof
    fix y
    assume "y \<in> {0..<mAlphabet}"
    then have y: "y < mAlphabet" by simp
    then have "(of_nat y :: 8 word) \<in> set perm"
      using assms(4) by simp
    then obtain x where x: "x < length perm" "perm ! x = of_nat y"
      by (auto simp: in_set_conv_nth)
    then have "unat (perm ! x) = y"
      using y assms(1) by (simp add: unat_of_nat_byte)
    then have "lambdaInvRow perm row ! y = int x"
      using inv [of x] x(1) assms(2) by simp
    then show "lambdaRow perm ! nat (lambdaInvRow perm row ! y) = int y"
      using x y assms(1) by (simp add: lambdaRow_eq uint_of_nat_byte)
  qed
qed

lemma shuffle_draws_inside:
  assumes "s < nStates" and "totalNeeded nStates mAlphabet \<le> length entropy"
  shows "nStates * mAlphabet + s * (mAlphabet - 1) + (mAlphabet - 1) \<le> length entropy"
proof -
  have "s * (mAlphabet - 1) + (mAlphabet - 1) = Suc s * (mAlphabet - 1)"
    by simp
  also have "\<dots> \<le> nStates * (mAlphabet - 1)"
    using assms(1) by (intro mult_le_mono1) simp
  also have "\<dots> \<le> nStates * mAlphabet"
    by simp
  finally have "nStates * mAlphabet + (s * (mAlphabet - 1) + (mAlphabet - 1))
      \<le> nStates * mAlphabet + nStates * mAlphabet"
    by simp
  then show ?thesis
    using assms(2) by (simp add: totalNeeded_def)
qed

lemma fillTables_permutationInvariant:
  assumes "mAlphabet \<le> 256" and "totalNeeded nStates mAlphabet \<le> length entropy"
  shows "permutationInvariant (machine (fillTables entropy nStates mAlphabet))"
proof -
  let ?P = "\<lambda>s. fst (shuffle entropy mAlphabet (nStates * mAlphabet + s * (mAlphabet - 1)))"
  have rows: "distinct (lambdaRow (?P s)) \<and> set (lambdaRow (?P s)) = {0..<int mAlphabet}
      \<and> (\<forall>x \<in> {0..<mAlphabet}.
            lambdaInvRow (?P s) (replicate mAlphabet 0) ! nat (lambdaRow (?P s) ! x) = int x)
      \<and> (\<forall>y \<in> {0..<mAlphabet}.
            lambdaRow (?P s) ! nat (lambdaInvRow (?P s) (replicate mAlphabet 0) ! y) = int y)"
    if "s < nStates" for s
  proof -
    have inside: "nStates * mAlphabet + s * (mAlphabet - 1) + (mAlphabet - 1) \<le> length entropy"
      using that assms(2) by (rule shuffle_draws_inside)
    have "length (?P s) = mAlphabet"
      by (rule shuffle_length)
    moreover have "distinct (?P s)" and "set (?P s) = of_nat ` {0..<mAlphabet}"
      using shuffle_permutation [OF assms(1) inside] by simp_all
    moreover have "length (replicate mAlphabet (0 :: int)) = mAlphabet"
      by simp
    ultimately show ?thesis
      using permutation_rows [OF assms(1), of "?P s" "replicate mAlphabet 0"] by blast
  qed
  show ?thesis
    unfolding permutationInvariant_def fillTables_eq
    using rows by (simp add: lambdaRow_def lambdaInvRow_length shuffle_length)
qed

lemma deltaRow_entry:
  assumes "0 < nStates" and "nStates \<le> 2 ^ 31" and "c + x < length entropy" and "x < mAlphabet"
  shows "deltaRow entropy nStates mAlphabet c ! x = uint (entropy ! (c + x)) mod int nStates"
proof -
  let ?v = "uint (entropy ! (c + x)) mod int nStates"
  have "0 \<le> ?v" and "?v < int nStates"
    using assms(1) by simp_all
  moreover have "int nStates \<le> 2 ^ 31"
    using assms(2) by (metis of_nat_le_iff of_nat_numeral of_nat_power)
  ultimately have "toInt32 ?v = ?v"
    by (intro toInt32_id) simp_all
  then show ?thesis
    using assms(1,3,4) by (simp add: deltaRow_def drawMod_in_range storeInt32_def)
qed

lemma delta_draws_inside:
  assumes "s < nStates" and "x < mAlphabet" and "totalNeeded nStates mAlphabet \<le> length entropy"
  shows "s * mAlphabet + x < length entropy"
proof -
  have "s * mAlphabet + x < Suc s * mAlphabet"
    using assms(2) by simp
  also have "\<dots> \<le> nStates * mAlphabet"
    using assms(1) by (intro mult_le_mono1) simp
  finally show ?thesis
    using assms(3) by (simp add: totalNeeded_def)
qed

lemma fillTables_wellFormed:
  assumes "0 < nStates" and "nStates \<le> 2 ^ 31" and "totalNeeded nStates 256 \<le> length entropy"
  shows "wellFormed (machine (fillTables entropy nStates 256))"
proof -
  let ?M = "machine (fillTables entropy nStates 256)"
  let ?P = "\<lambda>s. fst (shuffle entropy 256 (nStates * 256 + s * (256 - 1)))"
  have fields: "this_n ?M = nStates" "this_m ?M = 256" "length (delta ?M) = nStates"
    by (simp_all add: fillTables_eq)
  have inv: "permutationInvariant ?M"
    using assms(3) by (intro fillTables_permutationInvariant) simp_all
  have d: "delta ?M ! s ! x = uint (entropy ! (s * 256 + x)) mod int nStates"
    if "s < nStates" "x < 256" for s x
  proof -
    have "s * 256 + x < length entropy"
      using that assms(3) by (rule delta_draws_inside)
    then have "deltaRow entropy nStates 256 (s * 256) ! x
        = uint (entropy ! (s * 256 + x)) mod int nStates"
      using that(2) by (intro deltaRow_entry [OF assms(1,2)])
    then show ?thesis using that(1) by (simp add: fillTables_eq)
  qed
  have dl: "length (delta ?M ! s) = 256" if "s < nStates" for s
    using that by (simp add: fillTables_eq deltaRow_def)
  have li: "0 \<le> lambdaInv ?M ! s ! x \<and> lambdaInv ?M ! s ! x < 256"
    if "s < nStates" "x < 256" for s x
  proof -
    have "\<forall>v \<in> set (lambdaInvRow (?P s) (replicate 256 0)). 0 \<le> v \<and> v < 256"
      by (rule lambdaInvRow_entries) (simp_all add: shuffle_length)
    moreover have "lambdaInvRow (?P s) (replicate 256 0) ! x
        \<in> set (lambdaInvRow (?P s) (replicate 256 0))"
      using that(2) by (intro nth_mem) (simp add: lambdaInvRow_length)
    ultimately show ?thesis
      using that(1) by (simp add: fillTables_eq)
  qed
  have lt: "0 \<le> lambdaTable ?M ! s ! x \<and> lambdaTable ?M ! s ! x < 256"
    if "s < nStates" "x < 256" for s x
  proof -
    have "length (lambdaTable ?M ! s) = 256" and "set (lambdaTable ?M ! s) = {0..<256}"
      using inv that(1) fields by (simp_all add: permutationInvariant_def)
    then have "lambdaTable ?M ! s ! x \<in> {0..<256}"
      using that(2) by (metis nth_mem)
    then show ?thesis by simp
  qed
  show ?thesis
    unfolding wellFormed_def
    using assms(1) inv fields d dl li lt
    by (simp add: permutationInvariant_def)
qed

section \<open>The warm-up and the byte loops on a well-formed machine\<close>

lemma wellFormed_currentState [simp]: "wellFormed (M\<lparr>currentState := cs\<rparr>) = wellFormed M"
  by (simp add: wellFormed_def)

lemma warmState_currentState [simp]: "warmState (M\<lparr>currentState := cs\<rparr>) j = warmState M j"
  by (induction j) simp_all

lemma encState_currentState [simp]: "encState (M\<lparr>currentState := cs\<rparr>) bytes i = encState M bytes i"
  by (induction i) simp_all

lemma decState_currentState [simp]: "decState (M\<lparr>currentState := cs\<rparr>) bytes i = decState M bytes i"
  by (induction i) simp_all

lemma wellFormed_rows:
  assumes "wellFormed M" and "0 \<le> s" and "s < int (this_n M)"
  shows "rowAt (delta M) (Some s) = Inr (delta M ! nat s)"
    and "rowAt (lambdaTable M) (Some s) = Inr (lambdaTable M ! nat s)"
    and "rowAt (lambdaInv M) (Some s) = Inr (lambdaInv M ! nat s)"
    and "length (delta M ! nat s) = 256"
    and "length (lambdaTable M ! nat s) = 256"
    and "length (lambdaInv M ! nat s) = 256"
proof -
  have s: "nat s < this_n M" using assms(2,3) by simp
  then show "rowAt (delta M) (Some s) = Inr (delta M ! nat s)"
    and "rowAt (lambdaTable M) (Some s) = Inr (lambdaTable M ! nat s)"
    and "rowAt (lambdaInv M) (Some s) = Inr (lambdaInv M ! nat s)"
    using assms(1,2) by (simp_all add: rowAt_def wellFormed_def)
  show "length (delta M ! nat s) = 256"
    and "length (lambdaTable M ! nat s) = 256"
    and "length (lambdaInv M ! nat s) = 256"
    using assms(1) s by (simp_all add: wellFormed_def)
qed

lemma wellFormed_entries:
  assumes "wellFormed M" and "0 \<le> s" and "s < int (this_n M)" and "x < 256"
  shows "0 \<le> delta M ! nat s ! x" and "delta M ! nat s ! x < int (this_n M)"
    and "0 \<le> lambdaTable M ! nat s ! x" and "lambdaTable M ! nat s ! x < 256"
    and "0 \<le> lambdaInv M ! nat s ! x" and "lambdaInv M ! nat s ! x < 256"
    and "lambdaInv M ! nat s ! nat (lambdaTable M ! nat s ! x) = int x"
proof -
  have "nat s \<in> {0..<this_n M}" and "x \<in> {0..<256}"
    using assms(2,3,4) by simp_all
  then show "0 \<le> delta M ! nat s ! x" and "delta M ! nat s ! x < int (this_n M)"
    and "0 \<le> lambdaTable M ! nat s ! x" and "lambdaTable M ! nat s ! x < 256"
    and "0 \<le> lambdaInv M ! nat s ! x" and "lambdaInv M ! nat s ! x < 256"
    and "lambdaInv M ! nat s ! nat (lambdaTable M ! nat s ! x) = int x"
    using assms(1) unfolding wellFormed_def by blast+
qed

lemma elemAt_byte: "length row = 256 \<Longrightarrow> elemAt row (Some (uint (b :: 8 word))) = Some (row ! unat b)"
  using unat_byte_less [of b] by (simp add: elemAt_def)

lemma elemAt_index: "length row = 256 \<Longrightarrow> x < 256 \<Longrightarrow> elemAt row (Some (int x)) = Some (row ! x)"
  by (simp add: elemAt_def)

text \<open>The warm-up never leaves the states of the machine.\<close>

lemma warm_prefix:
  assumes "wellFormed M"
  shows "forM [0..<j] (warmStep M) (Some 0) = Inr (Some (warmState M j))
       \<and> 0 \<le> warmState M j \<and> warmState M j < int (this_n M)"
proof (induction j)
  case 0
  then show ?case using assms by (simp add: wellFormed_def)
next
  case (Suc j)
  let ?s = "warmState M j"
  have s: "0 \<le> ?s" "?s < int (this_n M)" using Suc by simp_all
  have x: "j mod 256 < 256" by simp
  have "warmStep M j (Some ?s) = Inr (Some (delta M ! nat ?s ! (j mod 256)))"
    using wellFormed_rows(1,4) [OF assms s] by (simp add: warmStep_def elemAt_index)
  then have "forM [0..<Suc j] (warmStep M) (Some 0) = Inr (Some (warmState M (Suc j)))"
    using Suc by (simp add: forM_snoc)
  then show ?case
    using wellFormed_entries(1,2) [OF assms s x] by simp
qed

lemma resetAndWarm_eq:
  assumes "wellFormed M"
  shows "resetAndWarm M = Inr (Some (warmState M 500))"
  unfolding resetAndWarm_def reset_def using warm_prefix [OF assms, of 500] by simp

lemma warmState_range:
  assumes "wellFormed M"
  shows "0 \<le> warmState M j" and "warmState M j < int (this_n M)"
  using warm_prefix [OF assms, of j] by simp_all

lemma next_state_range:
  assumes "0 < n" and "0 \<le> d"
  shows "js_rem (d + int i) (int n) = Some ((d + int i) mod int n)"
    and "0 \<le> (d + int i) mod int n" and "(d + int i) mod int n < int n"
  using assms by (simp_all add: js_rem_nonneg)

text \<open>One turn of the encryption loop from a state of the machine.\<close>

lemma encryptStep_eq:
  assumes "wellFormed M" and "0 \<le> s" and "s < int (this_n M)" and "cur st = Some s"
  shows "encryptStep M bytes i st =
         Inr \<lparr> cur = Some ((delta M ! nat s ! unat (bytes ! i) + int i) mod int (this_n M)),
               outBytes = (outBytes st)[i := word_of_int (lambdaTable M ! nat s ! unat (bytes ! i))],
               trajectory =
                 (if i < 20
                  then trajectory st @
                       [\<lparr> step_t = i, step_s = Some s, step_i = Some (uint (bytes ! i)),
                          step_sPrime =
                            Some ((delta M ! nat s ! unat (bytes ! i) + int i) mod int (this_n M)),
                          step_o = Some (lambdaTable M ! nat s ! unat (bytes ! i)) \<rparr>]
                  else trajectory st) \<rparr>"
proof -
  have n: "0 < this_n M" using assms(1) by (simp add: wellFormed_def)
  have x: "unat (bytes ! i) < 256" by (rule unat_byte_less)
  have d: "0 \<le> delta M ! nat s ! unat (bytes ! i)"
    by (rule wellFormed_entries(1) [OF assms(1,2,3) x])
  show ?thesis
    unfolding encryptStep_def Let_def
    using wellFormed_rows [OF assms(1,2,3)] assms(4) next_state_range(1) [OF n d]
    by (simp add: elemAt_byte storeUint8_def)
qed

lemma encState_range:
  assumes "wellFormed M"
  shows "0 \<le> encState M bytes i \<and> encState M bytes i < int (this_n M)"
proof (induction i)
  case 0
  then show ?case using warmState_range [OF assms] by simp
next
  case (Suc i)
  have n: "0 < this_n M" using assms by (simp add: wellFormed_def)
  have x: "unat (bytes ! i) < 256" by (rule unat_byte_less)
  have "0 \<le> delta M ! nat (encState M bytes i) ! unat (bytes ! i)"
    using Suc by (intro wellFormed_entries(1) [OF assms _ _ x]) simp_all
  then show ?case
    using next_state_range(2,3) [OF n] by simp
qed

lemma encrypt_prefix:
  assumes "wellFormed M" and "k \<le> length bytes"
  shows "forM [0..<k] (encryptStep M bytes)
           \<lparr> cur = Some (warmState M 500), outBytes = replicate (length bytes) 0, trajectory = [] \<rparr>
       = Inr \<lparr> cur = Some (encState M bytes k),
               outBytes = map (\<lambda>i. word_of_int (encOutput M bytes i)) [0..<k]
                          @ drop k (replicate (length bytes) 0),
               trajectory = map (encTrajectoryStep M bytes) [0..<min k 20] \<rparr>"
  using assms(2)
proof (induction k)
  case 0
  then show ?case by simp
next
  case (Suc k)
  let ?st = "\<lparr> cur = Some (encState M bytes k),
               outBytes = map (\<lambda>i. word_of_int (encOutput M bytes i)) [0..<k]
                          @ drop k (replicate (length bytes) 0),
               trajectory = map (encTrajectoryStep M bytes) [0..<min k 20] \<rparr>"
  have s: "0 \<le> encState M bytes k" "encState M bytes k < int (this_n M)"
    using encState_range [OF assms(1)] by simp_all
  have upd: "(map (\<lambda>i. word_of_int (encOutput M bytes i)) [0..<k]
              @ drop k (replicate (length bytes) 0))[k := word_of_int (encOutput M bytes k)]
           = (map (\<lambda>i. word_of_int (encOutput M bytes i)) [0..<k] @ [word_of_int (encOutput M bytes k)])
              @ drop (Suc k) (replicate (length bytes) (0 :: 8 word))"
    using Suc.prems by (intro update_prefix_drop) simp_all
  have step: "encryptStep M bytes k ?st =
         Inr \<lparr> cur = Some (encState M bytes (Suc k)),
               outBytes = (outBytes ?st)[k := word_of_int (encOutput M bytes k)],
               trajectory =
                 (if k < 20 then trajectory ?st @ [encTrajectoryStep M bytes k]
                  else trajectory ?st) \<rparr>"
    using encryptStep_eq [OF assms(1) s, of ?st bytes k]
    by (simp add: encOutput_def encTrajectoryStep_def)
  show ?case
  proof (cases "k < 20")
    case True
    then show ?thesis
      using Suc step upd by (simp add: forM_snoc min_def)
  next
    case False
    then show ?thesis
      using Suc step upd by (simp add: forM_snoc min_def)
  qed
qed

lemma encryptBytes_eq:
  assumes "wellFormed M"
  shows "encryptBytes M bytes =
         Inr (M\<lparr>currentState := Some (encState M bytes (length bytes))\<rparr>,
              map (\<lambda>i. word_of_int (encOutput M bytes i)) [0..<length bytes],
              map (encTrajectoryStep M bytes) [0..<min (length bytes) 20])"
  unfolding encryptBytes_def
  using resetAndWarm_eq [OF assms] encrypt_prefix [OF assms, of "length bytes" bytes]
  by simp

text \<open>One turn of the decryption loop from a state of the machine.\<close>

lemma decryptStep_eq:
  assumes "wellFormed M" and "0 \<le> s" and "s < int (this_n M)" and "cur st = Some s"
  shows "decryptStep M bytes i st =
         Inr \<lparr> cur = Some ((delta M ! nat s ! nat (lambdaInv M ! nat s ! unat (bytes ! i)) + int i)
                          mod int (this_n M)),
               outBytes = (outBytes st)[i := word_of_int (lambdaInv M ! nat s ! unat (bytes ! i))],
               trajectory =
                 (if i < 20
                  then trajectory st @
                       [\<lparr> step_t = i, step_s = Some s,
                          step_i = Some (lambdaInv M ! nat s ! unat (bytes ! i)),
                          step_sPrime =
                            Some ((delta M ! nat s ! nat (lambdaInv M ! nat s ! unat (bytes ! i))
                                   + int i) mod int (this_n M)),
                          step_o = Some (uint (bytes ! i)) \<rparr>]
                  else trajectory st) \<rparr>"
proof -
  let ?r = "lambdaInv M ! nat s ! unat (bytes ! i)"
  have n: "0 < this_n M" using assms(1) by (simp add: wellFormed_def)
  have x: "unat (bytes ! i) < 256" by (rule unat_byte_less)
  have r: "0 \<le> ?r" "?r < 256"
    using wellFormed_entries(5,6) [OF assms(1,2,3) x] by simp_all
  then have r': "nat ?r < 256" by simp
  have d: "0 \<le> delta M ! nat s ! nat ?r"
    by (rule wellFormed_entries(1) [OF assms(1,2,3) r'])
  have e: "elemAt (delta M ! nat s) (Some ?r) = Some (delta M ! nat s ! nat ?r)"
    using wellFormed_rows(4) [OF assms(1,2,3)] r r' by (simp add: elemAt_def)
  show ?thesis
    unfolding decryptStep_def Let_def
    using wellFormed_rows [OF assms(1,2,3)] assms(4) next_state_range(1) [OF n d] e
    by (simp add: elemAt_byte storeUint8_def)
qed

lemma decState_range:
  assumes "wellFormed M"
  shows "0 \<le> decState M bytes i \<and> decState M bytes i < int (this_n M)"
proof (induction i)
  case 0
  then show ?case using warmState_range [OF assms] by simp
next
  case (Suc i)
  let ?s = "decState M bytes i"
  let ?r = "lambdaInv M ! nat ?s ! unat (bytes ! i)"
  have n: "0 < this_n M" using assms by (simp add: wellFormed_def)
  have x: "unat (bytes ! i) < 256" by (rule unat_byte_less)
  have s: "0 \<le> ?s" "?s < int (this_n M)" using Suc by simp_all
  have "0 \<le> ?r" "?r < 256"
    using wellFormed_entries(5,6) [OF assms s x] by simp_all
  then have "nat ?r < 256" by simp
  then have "0 \<le> delta M ! nat ?s ! nat ?r"
    by (rule wellFormed_entries(1) [OF assms s])
  then show ?case
    using next_state_range(2,3) [OF n] by simp
qed

lemma decrypt_prefix:
  assumes "wellFormed M" and "k \<le> length bytes"
  shows "forM [0..<k] (decryptStep M bytes)
           \<lparr> cur = Some (warmState M 500), outBytes = replicate (length bytes) 0, trajectory = [] \<rparr>
       = Inr \<lparr> cur = Some (decState M bytes k),
               outBytes = map (\<lambda>i. word_of_int (decOutput M bytes i)) [0..<k]
                          @ drop k (replicate (length bytes) 0),
               trajectory = map (decTrajectoryStep M bytes) [0..<min k 20] \<rparr>"
  using assms(2)
proof (induction k)
  case 0
  then show ?case by simp
next
  case (Suc k)
  let ?st = "\<lparr> cur = Some (decState M bytes k),
               outBytes = map (\<lambda>i. word_of_int (decOutput M bytes i)) [0..<k]
                          @ drop k (replicate (length bytes) 0),
               trajectory = map (decTrajectoryStep M bytes) [0..<min k 20] \<rparr>"
  have s: "0 \<le> decState M bytes k" "decState M bytes k < int (this_n M)"
    using decState_range [OF assms(1)] by simp_all
  have upd: "(map (\<lambda>i. word_of_int (decOutput M bytes i)) [0..<k]
              @ drop k (replicate (length bytes) 0))[k := word_of_int (decOutput M bytes k)]
           = (map (\<lambda>i. word_of_int (decOutput M bytes i)) [0..<k] @ [word_of_int (decOutput M bytes k)])
              @ drop (Suc k) (replicate (length bytes) (0 :: 8 word))"
    using Suc.prems by (intro update_prefix_drop) simp_all
  have step: "decryptStep M bytes k ?st =
         Inr \<lparr> cur = Some (decState M bytes (Suc k)),
               outBytes = (outBytes ?st)[k := word_of_int (decOutput M bytes k)],
               trajectory =
                 (if k < 20 then trajectory ?st @ [decTrajectoryStep M bytes k]
                  else trajectory ?st) \<rparr>"
    using decryptStep_eq [OF assms(1) s, of ?st bytes k]
    by (simp add: decOutput_def decTrajectoryStep_def)
  show ?case
  proof (cases "k < 20")
    case True
    then show ?thesis
      using Suc step upd by (simp add: forM_snoc min_def)
  next
    case False
    then show ?thesis
      using Suc step upd by (simp add: forM_snoc min_def)
  qed
qed

lemma decryptBytes_eq:
  assumes "wellFormed M"
  shows "decryptBytes M bytes =
         Inr (M\<lparr>currentState := Some (decState M bytes (length bytes))\<rparr>,
              map (\<lambda>i. word_of_int (decOutput M bytes i)) [0..<length bytes],
              map (decTrajectoryStep M bytes) [0..<min (length bytes) 20])"
  unfolding decryptBytes_def
  using resetAndWarm_eq [OF assms] decrypt_prefix [OF assms, of "length bytes" bytes]
  by simp

section \<open>Decryption follows the states of encryption\<close>

lemma unat_word_of_int_byte: "0 \<le> v \<Longrightarrow> v < 256 \<Longrightarrow> unat (word_of_int v :: 8 word) = nat v"
proof -
  assume v: "0 \<le> v" "v < 256"
  then have "(word_of_int v :: 8 word) = of_nat (nat v)"
    by simp
  then show ?thesis
    using v unat_of_nat_byte [of "nat v"] by simp
qed

lemma decrypt_follows_encrypt:
  assumes "wellFormed M"
    and "ct = map (\<lambda>i. word_of_int (encOutput M P i)) [0..<length P]"
  shows "i \<le> length P \<Longrightarrow> decState M ct i = encState M P i"
    and "i < length P \<Longrightarrow> decOutput M ct i = uint (P ! i)"
proof -
  have rec: "lambdaInv M ! nat (encState M P i) ! unat (ct ! i) = uint (P ! i)"
    if "i < length P" for i
  proof -
    let ?s = "encState M P i"
    have s: "0 \<le> ?s" "?s < int (this_n M)"
      using encState_range [OF assms(1)] by simp_all
    have x: "unat (P ! i) < 256" by (rule unat_byte_less)
    have "ct ! i = word_of_int (lambdaTable M ! nat ?s ! unat (P ! i))"
      using that assms(2) by (simp add: encOutput_def)
    then have "unat (ct ! i) = nat (lambdaTable M ! nat ?s ! unat (P ! i))"
      using wellFormed_entries(3,4) [OF assms(1) s x] by (simp add: unat_word_of_int_byte)
    then show ?thesis
      using wellFormed_entries(7) [OF assms(1) s x] by simp
  qed
  have st: "decState M ct i = encState M P i" if "i \<le> length P" for i
    using that
  proof (induction i)
    case 0
    then show ?case by simp
  next
    case (Suc i)
    then have "decState M ct i = encState M P i" and "i < length P"
      by simp_all
    then show ?case
      using rec [of i] by simp
  qed
  show "i \<le> length P \<Longrightarrow> decState M ct i = encState M P i"
    by (rule st)
  show "i < length P \<Longrightarrow> decOutput M ct i = uint (P ! i)"
    using st [of i] rec [of i] by (simp add: decOutput_def)
qed

lemma decrypt_recovers:
  assumes "wellFormed M"
    and "ct = map (\<lambda>i. word_of_int (encOutput M P i)) [0..<length P]"
  shows "map (\<lambda>i. word_of_int (decOutput M ct i)) [0..<length ct] = P"
proof -
  have "map (\<lambda>i. word_of_int (decOutput M ct i) :: 8 word) [0..<length P]
      = map (\<lambda>i. P ! i) [0..<length P]"
    using decrypt_follows_encrypt(2) [OF assms] by (intro map_cong) simp_all
  then show ?thesis
    using assms(2) by (simp add: map_nth)
qed

section \<open>buildMealyMachine on a generator\<close>

lemma buildMealyMachine_eq:
  "buildMealyMachine mooreGen nStates mAlphabet =
     machine (fillTables (fst (generateStream mooreGen (totalNeeded nStates mAlphabet)))
                nStates mAlphabet)"
  by (simp add: buildMealyMachine_def buildLocals_def)

lemma buildMealyMachine_fields:
  "this_n (buildMealyMachine mooreGen nStates mAlphabet) = nStates"
  "this_m (buildMealyMachine mooreGen nStates mAlphabet) = mAlphabet"
  "length (delta (buildMealyMachine mooreGen nStates mAlphabet)) = nStates"
  "length (lambdaTable (buildMealyMachine mooreGen nStates mAlphabet)) = nStates"
  "length (lambdaInv (buildMealyMachine mooreGen nStates mAlphabet)) = nStates"
  by (simp_all add: buildMealyMachine_eq fillTables_eq)

lemma buildMealyMachine_wellFormed:
  assumes "0 < nStates" and "nStates \<le> 2 ^ 31"
  shows "wellFormed (buildMealyMachine mooreGen nStates 256)"
  unfolding buildMealyMachine_eq
  using assms by (intro fillTables_wellFormed) (simp_all add: generateStream_length)

lemma buildMealyMachine_permutationInvariant:
  assumes "mAlphabet \<le> 256"
  shows "permutationInvariant (buildMealyMachine mooreGen nStates mAlphabet)"
  unfolding buildMealyMachine_eq
  using assms by (intro fillTables_permutationInvariant) (simp_all add: generateStream_length)

lemma encryptBytes_tables:
  "encryptBytes M bytes = Inr (M', out, tr) \<Longrightarrow> M' = M\<lparr>currentState := currentState M'\<rparr>"
  by (auto simp: encryptBytes_def split: sum.splits)

lemma decryptBytes_tables:
  "decryptBytes M bytes = Inr (M', out, tr) \<Longrightarrow> M' = M\<lparr>currentState := currentState M'\<rparr>"
  by (auto simp: decryptBytes_def split: sum.splits)

lemma permutationInvariant_currentState [simp]:
  "permutationInvariant (M\<lparr>currentState := cs\<rparr>) = permutationInvariant M"
  by (simp add: permutationInvariant_def)

section \<open>Which stream values the build reads\<close>

lemma drawMod_cong: "entropyAt e1 c = entropyAt e2 c \<Longrightarrow> drawMod e1 c k = drawMod e2 c k"
  by (simp add: drawMod_def)

lemma shuffleStep_cong:
  "entropyAt e1 (snd pc) = entropyAt e2 (snd pc) \<Longrightarrow> shuffleStep e1 i pc = shuffleStep e2 i pc"
  by (simp add: shuffleStep_def drawMod_def)

lemma fold_shuffleStep_cong:
  assumes "\<forall>c. snd pc \<le> c \<and> c < snd pc + length ks \<longrightarrow> entropyAt e1 c = entropyAt e2 c"
  shows "fold (shuffleStep e1) ks pc = fold (shuffleStep e2) ks pc"
  using assms
proof (induction ks arbitrary: pc)
  case Nil
  then show ?case by simp
next
  case (Cons i ks)
  have first: "shuffleStep e1 i pc = shuffleStep e2 i pc"
    using Cons.prems by (intro shuffleStep_cong) simp
  have "\<forall>c. snd (shuffleStep e2 i pc) \<le> c \<and> c < snd (shuffleStep e2 i pc) + length ks
          \<longrightarrow> entropyAt e1 c = entropyAt e2 c"
    using Cons.prems by (simp add: shuffleStep_snd)
  then have "fold (shuffleStep e1) ks (shuffleStep e2 i pc)
           = fold (shuffleStep e2) ks (shuffleStep e2 i pc)"
    by (rule Cons.IH)
  then show ?case using first by simp
qed

lemma shuffle_cong:
  assumes "\<forall>c'. c \<le> c' \<and> c' < c + (mAlphabet - 1) \<longrightarrow> entropyAt e1 c' = entropyAt e2 c'"
  shows "shuffle e1 mAlphabet c = shuffle e2 mAlphabet c"
  unfolding shuffle_def using assms by (intro fold_shuffleStep_cong) simp

lemma deltaRow_cong:
  assumes "\<forall>c'. c \<le> c' \<and> c' < c + mAlphabet \<longrightarrow> entropyAt e1 c' = entropyAt e2 c'"
  shows "deltaRow e1 nStates mAlphabet c = deltaRow e2 nStates mAlphabet c"
  unfolding deltaRow_def using assms by (intro map_cong refl arg_cong [of _ _ storeInt32] drawMod_cong) simp

lemma fillTables_cong:
  assumes "\<forall>c < nStates * mAlphabet + nStates * (mAlphabet - 1). entropyAt e1 c = entropyAt e2 c"
  shows "fillTables e1 nStates mAlphabet = fillTables e2 nStates mAlphabet"
proof -
  have d: "deltaRow e1 nStates mAlphabet (s * mAlphabet) = deltaRow e2 nStates mAlphabet (s * mAlphabet)"
    if "s < nStates" for s
  proof (rule deltaRow_cong, intro allI impI)
    fix c'
    assume "s * mAlphabet \<le> c' \<and> c' < s * mAlphabet + mAlphabet"
    then have "c' < Suc s * mAlphabet" by simp
    also have "\<dots> \<le> nStates * mAlphabet"
      using that by (intro mult_le_mono1) simp
    finally have "c' < nStates * mAlphabet + nStates * (mAlphabet - 1)" by simp
    then show "entropyAt e1 c' = entropyAt e2 c'" using assms by simp
  qed
  have p: "shuffle e1 mAlphabet (nStates * mAlphabet + s * (mAlphabet - 1))
         = shuffle e2 mAlphabet (nStates * mAlphabet + s * (mAlphabet - 1))"
    if "s < nStates" for s
  proof (rule shuffle_cong, intro allI impI)
    fix c'
    assume c': "nStates * mAlphabet + s * (mAlphabet - 1) \<le> c'
        \<and> c' < nStates * mAlphabet + s * (mAlphabet - 1) + (mAlphabet - 1)"
    have "s * (mAlphabet - 1) + (mAlphabet - 1) = Suc s * (mAlphabet - 1)" by simp
    also have "\<dots> \<le> nStates * (mAlphabet - 1)"
      using that by (intro mult_le_mono1) simp
    finally have "c' < nStates * mAlphabet + nStates * (mAlphabet - 1)"
      using c' by simp
    then show "entropyAt e1 c' = entropyAt e2 c'" using assms by simp
  qed
  show ?thesis
    unfolding fillTables_eq using d p by (simp cong: map_cong)
qed

lemma entropyAt_take:
  assumes "take k e1 = take k e2" and "k \<le> length e2" and "c < k"
  shows "entropyAt e1 c = entropyAt e2 c"
proof -
  have "length (take k e1) = k"
    using assms(1,2) by simp
  then have l1: "k \<le> length e1" by simp
  have "e1 ! c = take k e1 ! c" and "e2 ! c = take k e2 ! c"
    using assms(3) by simp_all
  then have "e1 ! c = e2 ! c" using assms(1) by simp
  then show ?thesis
    using l1 assms(2,3) by (simp add: entropyAt_def)
qed

lemma unread_tail:
  assumes "nStates * mAlphabet + nStates * (mAlphabet - 1) \<le> length entropy"
    and "take (nStates * mAlphabet + nStates * (mAlphabet - 1)) entropy'
       = take (nStates * mAlphabet + nStates * (mAlphabet - 1)) entropy"
  shows "fillTables entropy' nStates mAlphabet = fillTables entropy nStates mAlphabet"
  using entropyAt_take [OF assms(2,1)] by (intro fillTables_cong) simp

section \<open>Rounding to the nearest number is monotone\<close>

lemma bitlen_powi_bounds:
  assumes "0 < a"
  shows "(2 :: rat) powi (bitlen a - 1) \<le> of_int a" and "of_int a < (2 :: rat) powi bitlen a"
proof -
  have pos: "1 \<le> bitlen a"
    using assms bitlen_eq_zero_iff [of a] bitlen_nonneg [of a] by linarith
  have "(2 :: int) ^ nat (bitlen a - 1) \<le> a" and "a < 2 ^ nat (bitlen a)"
    using bitlen_bounds [OF assms] by simp_all
  then have "(of_int (2 ^ nat (bitlen a - 1)) :: rat) \<le> of_int a"
    and "(of_int a :: rat) < of_int (2 ^ nat (bitlen a))"
    by (simp_all only: of_int_le_iff of_int_less_iff)
  then show "(2 :: rat) powi (bitlen a - 1) \<le> of_int a" and "of_int a < (2 :: rat) powi bitlen a"
    using pos by (simp_all add: power_int_def)
qed

lemma ilog2_bounds:
  assumes "0 < x"
  shows "2 powi ilog2 x \<le> x" and "x < 2 powi (ilog2 x + 1)"
proof -
  obtain a b where ab: "quotient_of x = (a, b)"
    by (cases "quotient_of x")
  have b: "0 < b"
    using ab by (rule quotient_of_denom_pos)
  have x: "x = of_int a / of_int b"
    using ab by (rule quotient_of_div)
  have a: "0 < a"
    using assms b x by (simp add: zero_less_divide_iff)
  define k where "k = bitlen a - bitlen b"
  have bq: "0 < (of_int b :: rat)" using b by simp
  have up: "x < 2 powi (k + 1)"
  proof -
    have "of_int a * (2 :: rat) powi (bitlen b - 1) < 2 powi bitlen a * 2 powi (bitlen b - 1)"
      using bitlen_powi_bounds(2) [OF a] by simp
    also have "\<dots> \<le> 2 powi bitlen a * of_int b"
      using bitlen_powi_bounds(1) [OF b] by simp
    finally have "of_int a / of_int b < (2 :: rat) powi bitlen a / 2 powi (bitlen b - 1)"
      using bq by (simp add: field_simps)
    also have "\<dots> = 2 powi (k + 1)"
      by (simp add: k_def power_int_diff [symmetric] algebra_simps)
    finally show ?thesis by (simp add: x)
  qed
  have low: "2 powi (k - 1) < x"
  proof -
    have "(2 :: rat) powi (bitlen a - 1) * of_int b < 2 powi (bitlen a - 1) * 2 powi bitlen b"
      using bitlen_powi_bounds(2) [OF b] by simp
    also have "\<dots> \<le> of_int a * 2 powi bitlen b"
      using bitlen_powi_bounds(1) [OF a] by simp
    finally have "(2 :: rat) powi (bitlen a - 1) / 2 powi bitlen b < of_int a / of_int b"
      using bq by (simp add: field_simps)
    moreover have "(2 :: rat) powi (bitlen a - 1) / 2 powi bitlen b = 2 powi (k - 1)"
      by (simp add: k_def power_int_diff [symmetric] algebra_simps)
    ultimately show ?thesis by (simp add: x)
  qed
  have il: "ilog2 x = (if 2 powi k \<le> x then k else k - 1)"
    by (simp add: ilog2_def ab k_def)
  show "2 powi ilog2 x \<le> x"
    using low by (simp add: il)
  show "x < 2 powi (ilog2 x + 1)"
    using up by (simp add: il not_le)
qed

lemma ilog2_mono:
  assumes "0 < x" and "x \<le> y"
  shows "ilog2 x \<le> ilog2 y"
proof -
  have "(2 :: rat) powi ilog2 x \<le> x"
    using assms(1) by (rule ilog2_bounds)
  also have "x \<le> y" by fact
  also have "y < 2 powi (ilog2 y + 1)"
    using assms by (intro ilog2_bounds) simp
  finally have lt: "(2 :: rat) powi ilog2 x < 2 powi (ilog2 y + 1)" .
  have "ilog2 x < ilog2 y + 1"
  proof (rule ccontr)
    assume "\<not> ilog2 x < ilog2 y + 1"
    then have "ilog2 y + 1 \<le> ilog2 x" by simp
    then have "(2 :: rat) powi (ilog2 y + 1) \<le> 2 powi ilog2 x"
      by (intro power_int_increasing) simp_all
    with lt show False by simp
  qed
  then show ?thesis by simp
qed

lemma roundHalfEven_bounds: "\<lfloor>x\<rfloor> \<le> roundHalfEven x" "roundHalfEven x \<le> \<lfloor>x\<rfloor> + 1"
  by (simp_all add: roundHalfEven_def Let_def)

lemma roundHalfEven_ge_int:
  assumes "of_int k \<le> x"
  shows "k \<le> roundHalfEven x"
proof -
  have "k \<le> \<lfloor>x\<rfloor>"
    using assms by (simp add: le_floor_iff)
  then show ?thesis
    using roundHalfEven_bounds(1) [of x] by simp
qed

lemma roundHalfEven_le_int:
  assumes "x \<le> of_int k"
  shows "roundHalfEven x \<le> k"
proof (cases "x = of_int k")
  case True
  then show ?thesis by (simp add: roundHalfEven_def)
next
  case False
  then have "x < of_int k" using assms by simp
  then have "\<lfloor>x\<rfloor> < k" by (simp add: floor_less_iff)
  then show ?thesis
    using roundHalfEven_bounds(2) [of x] by simp
qed

lemma roundHalfEven_mono:
  assumes "x \<le> y"
  shows "roundHalfEven x \<le> roundHalfEven y"
proof (cases "\<lfloor>x\<rfloor> = \<lfloor>y\<rfloor>")
  case True
  then have "x - of_int \<lfloor>x\<rfloor> \<le> y - of_int \<lfloor>y\<rfloor>"
    using assms by simp
  then show ?thesis
    using True by (auto simp: roundHalfEven_def Let_def)
next
  case False
  then have "\<lfloor>x\<rfloor> < \<lfloor>y\<rfloor>"
    using floor_mono [OF assms] by simp
  then have "roundHalfEven x \<le> \<lfloor>y\<rfloor>"
    using roundHalfEven_bounds(2) [of x] by simp
  then show ?thesis
    using roundHalfEven_bounds(1) [of y] by simp
qed

lemma quantum_mono: "0 < x \<Longrightarrow> x \<le> y \<Longrightarrow> quantum x \<le> quantum y"
  using ilog2_mono [of x y] by (simp add: quantum_def)

lemma round64_nonneg: "0 \<le> x \<Longrightarrow> 0 \<le> round64 x"
proof -
  assume x: "0 \<le> x"
  then have "0 \<le> x / 2 powi quantum x"
    by simp
  then have "0 \<le> roundHalfEven (x / 2 powi quantum x)"
    using roundHalfEven_ge_int [of 0] by simp
  then show ?thesis
    by (simp add: round64_def)
qed

text \<open>
  Between two binades stands a power of two, which is on the grid of both: the lower
  number rounds to at most it, the upper one to at least it.
\<close>

lemma round64_mono:
  assumes "0 \<le> x" and "x \<le> y"
  shows "round64 x \<le> round64 y"
proof (cases "x = 0")
  case True
  then show ?thesis
    using assms round64_nonneg [of y] by (simp add: round64_def)
next
  case False
  then have x: "0 < x" and y: "0 < y"
    using assms by simp_all
  have q: "quantum x \<le> quantum y"
    using x assms(2) by (rule quantum_mono)
  have rx: "round64 x = of_int (roundHalfEven (x / 2 powi quantum x)) * 2 powi quantum x"
    and ry: "round64 y = of_int (roundHalfEven (y / 2 powi quantum y)) * 2 powi quantum y"
    using x y by (simp_all add: round64_def)
  show ?thesis
  proof (cases "quantum x = quantum y")
    case True
    have "x / 2 powi quantum y \<le> y / 2 powi quantum y"
      using assms(2) by (simp add: divide_right_mono)
    then have "roundHalfEven (x / 2 powi quantum y) \<le> roundHalfEven (y / 2 powi quantum y)"
      by (rule roundHalfEven_mono)
    then show ?thesis
      unfolding rx ry True by (simp add: mult_right_mono)
  next
    case False
    then have lt: "quantum x < quantum y" using q by simp
    have ax: "\<bar>x\<bar> = x" and ay: "\<bar>y\<bar> = y"
      using x y by simp_all
    have qy: "quantum y = ilog2 y - 52"
      using lt by (simp add: quantum_def ax ay max_def split: if_splits)
    have "ilog2 x - 52 \<le> quantum x"
      by (simp add: quantum_def ax)
    then have ex: "ilog2 x + 1 \<le> ilog2 y"
      using lt qy by simp
    define B :: rat where "B = 2 powi ilog2 y"
    have "x < 2 powi (ilog2 x + 1)"
      using x by (rule ilog2_bounds)
    also have "\<dots> \<le> B"
      unfolding B_def using ex by (intro power_int_increasing) simp_all
    finally have xB: "x \<le> B" by simp
    have By: "B \<le> y"
      unfolding B_def using y by (rule ilog2_bounds)
    have gx: "0 \<le> ilog2 y - quantum x"
      using lt qy by simp
    have "B / 2 powi quantum x = 2 powi (ilog2 y - quantum x)"
      unfolding B_def by (simp add: power_int_diff)
    also have "\<dots> = of_int (2 ^ nat (ilog2 y - quantum x))"
      using gx by (simp add: power_int_def)
    finally have Bx: "B / 2 powi quantum x = of_int (2 ^ nat (ilog2 y - quantum x))" .
    have "x / 2 powi quantum x \<le> B / 2 powi quantum x"
      using xB by (simp add: divide_right_mono)
    then have "roundHalfEven (x / 2 powi quantum x) \<le> 2 ^ nat (ilog2 y - quantum x)"
      unfolding Bx by (rule roundHalfEven_le_int)
    then have "(of_int (roundHalfEven (x / 2 powi quantum x)) :: rat)
        \<le> of_int (2 ^ nat (ilog2 y - quantum x))"
      by (simp only: of_int_le_iff)
    then have "round64 x \<le> of_int (2 ^ nat (ilog2 y - quantum x)) * 2 powi quantum x"
      unfolding rx by (simp add: mult_right_mono)
    also have "\<dots> = B"
      using Bx by (simp add: field_simps)
    finally have low: "round64 x \<le> B" .
    have "B / 2 powi quantum y = 2 powi 52"
      unfolding B_def qy by (simp add: power_int_diff [symmetric])
    then have Bq: "B / 2 powi quantum y = of_int (2 ^ 52)"
      by simp
    have "B / 2 powi quantum y \<le> y / 2 powi quantum y"
      using By by (simp add: divide_right_mono)
    then have "2 ^ 52 \<le> roundHalfEven (y / 2 powi quantum y)"
      unfolding Bq by (rule roundHalfEven_ge_int)
    then have "(of_int (2 ^ 52) :: rat) \<le> of_int (roundHalfEven (y / 2 powi quantum y))"
      by (simp only: of_int_le_iff)
    then have "of_int (2 ^ 52) * 2 powi quantum y \<le> round64 y"
      unfolding ry by (simp add: mult_right_mono)
    moreover have "of_int (2 ^ 52) * 2 powi quantum y = B"
      using Bq by (simp add: field_simps)
    ultimately have "B \<le> round64 y" by simp
    with low show ?thesis by simp
  qed
qed

section \<open>The seed and the stream of a fresh generator\<close>

lemma literal_tenth_fixed: "round64 (literal (1 / 10)) = literal (1 / 10)"
  by code_simp

lemma seed_upper_constant:
  "round64 (literal (1 / 10) + round64 (799999 / 1000000)) < literal (9 / 10)"
  by code_simp

lemma literal_tenth_nonneg: "0 \<le> literal (1 / 10)"
  unfolding literal_def by (rule round64_nonneg) simp

lemma initializeSeed_bounds:
  "literal (1 / 10) \<le> initializeSeed key \<and> initializeSeed key < literal (9 / 10)"
proof -
  define h where "h = \<bar>keyHash key\<bar> mod 800000"
  have h: "0 \<le> h" "h \<le> 799999"
    using pos_mod_bound [of 800000 "\<bar>keyHash key\<bar>"] by (simp_all add: h_def)
  define t :: rat where "t = of_int h / 1000000"
  have t: "0 \<le> t" "t \<le> 799999 / 1000000"
    using h by (simp_all add: t_def)
  have "round64 0 \<le> round64 t"
    using t(1) by (intro round64_mono) simp_all
  then have t0: "0 \<le> round64 t"
    by (simp add: round64_def)
  have t1: "round64 t \<le> round64 (799999 / 1000000)"
    using t by (intro round64_mono)
  have seed: "initializeSeed key = round64 (literal (1 / 10) + round64 t)"
    by (simp add: initializeSeed_def Let_def fadd_def fdiv_def h_def t_def)
  have "round64 (literal (1 / 10)) \<le> round64 (literal (1 / 10) + round64 t)"
    using literal_tenth_nonneg t0 by (intro round64_mono) simp_all
  then have low: "literal (1 / 10) \<le> initializeSeed key"
    by (simp only: seed literal_tenth_fixed)
  have "round64 (literal (1 / 10) + round64 t)
      \<le> round64 (literal (1 / 10) + round64 (799999 / 1000000))"
    using literal_tenth_nonneg t0 t1 by (intro round64_mono) simp_all
  then have "initializeSeed key < literal (9 / 10)"
    unfolding seed using seed_upper_constant by (rule le_less_trans)
  with low show ?thesis by simp
qed

lemma transition_fields [simp]:
  "this_r (transition g) = this_r g"
  "this_stabilizationSteps (transition g) = this_stabilizationSteps g"
  by (simp_all add: transition_def Let_def)

lemma produceOutput_eq:
  "produceOutput g = (extractOutput (this_state (transition g)), transition g)"
  by (simp add: produceOutput_def extractOutput_def Let_def)

lemma funpow_shift: "(f ^^ i) (f ((f ^^ k) x)) = (f ^^ (k + Suc i)) x"
proof (induction i)
  case 0
  then show ?case by simp
next
  case (Suc i)
  have "(f ^^ Suc i) (f ((f ^^ k) x)) = f ((f ^^ i) (f ((f ^^ k) x)))"
    by simp
  also have "\<dots> = f ((f ^^ (k + Suc i)) x)"
    by (simp only: Suc.IH)
  also have "\<dots> = (f ^^ (k + Suc (Suc i))) x"
    by simp
  finally show ?case .
qed

text \<open>The stream of any generator, and the generator it leaves.\<close>

lemma generateStream_eq:
  "generateStream g count =
     (map (\<lambda>i. extractOutput (this_state ((transition ^^ i) (transition g)))) [0..<count],
      (transition ^^ count) g)"
proof (induction count arbitrary: g)
  case 0
  then show ?case by simp
next
  case (Suc count)
  let ?f = "\<lambda>i. extractOutput (this_state ((transition ^^ i) (transition g)))"
  have shift: "(transition ^^ i) (transition (transition g)) = (transition ^^ Suc i) (transition g)" for i
    by (simp add: funpow_swap1)
  have "[0..<Suc count] = 0 # map Suc [0..<count]"
    by (simp only: upt_conv_Cons [OF zero_less_Suc] map_Suc_upt)
  then have m: "map ?f [0..<Suc count] = ?f 0 # map (\<lambda>i. ?f (Suc i)) [0..<count]"
    by (simp only: list.map map_map o_def)
  have "generateStream g (Suc count) =
      (extractOutput (this_state (transition g))
         # map (\<lambda>i. extractOutput (this_state ((transition ^^ i) (transition (transition g)))))
             [0..<count],
       (transition ^^ count) (transition g))"
    by (simp add: produceOutput_eq Suc.IH del: upt_Suc)
  moreover have "map (\<lambda>i. extractOutput (this_state ((transition ^^ i) (transition (transition g)))))
        [0..<count] = map (\<lambda>i. ?f (Suc i)) [0..<count]"
    by (simp only: shift)
  moreover have "(transition ^^ count) (transition g) = (transition ^^ Suc count) g"
    by (simp add: funpow_swap1)
  moreover have "extractOutput (this_state (transition g)) = ?f 0"
    by simp
  ultimately have "generateStream g (Suc count) =
      (?f 0 # map (\<lambda>i. ?f (Suc i)) [0..<count], (transition ^^ Suc count) g)"
    by (simp only:)
  then show ?case
    by (simp only: m)
qed

lemma newLogisticMoore_eq:
  "newLogisticMoore key steps = (transition ^^ steps) (seededGenerator key steps)"
  by (simp add: newLogisticMoore_def stabilizeState_def seededGenerator_def)

lemma fresh_stream:
  "fst (generateStream (newLogisticMoore key steps) count) = map (streamValue key steps) [0..<count]"
  by (simp add: generateStream_eq newLogisticMoore_eq streamValue_def funpow_shift del: funpow.simps)

text \<open>The state of a generator stays strictly between 0 and 1.\<close>

lemma transition_state: "0 < this_state (transition g) \<and> this_state (transition g) < 1"
  by (simp add: transition_def Let_def not_le)

lemma newLogisticMoore_state:
  "0 < this_state (newLogisticMoore key steps) \<and> this_state (newLogisticMoore key steps) < 1"
proof (cases steps)
  case 0
  have "0 < literal (1 / 10)"
    by code_simp
  moreover have "literal (9 / 10) < 1"
    by code_simp
  ultimately show ?thesis
    using initializeSeed_bounds [of key] 0
    by (auto simp: newLogisticMoore_eq seededGenerator_def)
next
  case (Suc k)
  then show ?thesis
    using transition_state by (simp add: newLogisticMoore_eq)
qed

section \<open>Formatting and the metrics\<close>

lemma decimalDigits_small: "n < 10 \<Longrightarrow> decimalDigits n = [digitChar n]"
  by (subst decimalDigits.simps) simp

lemma decimalDigits_large:
  "10 \<le> n \<Longrightarrow> decimalDigits n = decimalDigits (n div 10) @ [digitChar (n mod 10)]"
  by (subst decimalDigits.simps) simp

lemma replicate_numeral: "replicate (numeral k) x = x # replicate (pred_numeral k) x"
  by (simp add: numeral_eq_Suc)

lemmas format_simps =
  formatFixed_def digitChar_def decimalDigits_small decimalDigits_large replicate_numeral

lemma floor_half: "\<lfloor>(of_nat k :: rat) + 1 / 2\<rfloor> = int k"
  by (rule floor_unique) simp_all

lemma toFixed_of_nat: "toFixed f (of_nat k) = formatFixed f (k * 10 ^ f)"
proof -
  have "\<bar>of_nat k :: rat\<bar> * 10 ^ f = of_nat (k * 10 ^ f)"
    by simp
  then have "nat \<lfloor>\<bar>of_nat k :: rat\<bar> * 10 ^ f + 1 / 2\<rfloor> = k * 10 ^ f"
    by (simp only: floor_half nat_int)
  then show ?thesis
    by (simp add: toFixed_def)
qed

lemma toFixed_2_zero: "toFixed 2 0 = ''0.00''"
  using toFixed_of_nat [of 2 0] by (simp add: format_simps)

lemma toFixed_2_hundred: "toFixed 2 100 = ''100.00''"
  using toFixed_of_nat [of 2 100] by (simp add: format_simps)

lemma toFixed_4_zero: "toFixed 4 0 = ''0.0000''"
  using toFixed_of_nat [of 4 0] by (simp add: format_simps)

lemma toFixed_4_one: "toFixed 4 1 = ''1.0000''"
  using toFixed_of_nat [of 4 1] by (simp add: format_simps)

text \<open>The counting loop counts the positions where the arrays differ.\<close>

lemma countDiff_prefix:
  "fold (\<lambda>i diff. if plain ! i \<noteq> cipher ! i then diff + 1 else diff) [0..<k] 0
     = card {i. i < k \<and> plain ! i \<noteq> cipher ! i}"
proof (induction k)
  case 0
  then show ?case by simp
next
  case (Suc k)
  let ?D = "\<lambda>k. {i. i < k \<and> plain ! i \<noteq> cipher ! i}"
  have fin: "finite (?D k)" by simp
  have notin: "k \<notin> ?D k" by simp
  show ?case
  proof (cases "plain ! k \<noteq> cipher ! k")
    case True
    then have "?D (Suc k) = insert k (?D k)"
      by (auto simp: less_Suc_eq)
    then have "card (?D (Suc k)) = Suc (card (?D k))"
      using fin notin by simp
    then show ?thesis using Suc True by simp
  next
    case False
    then have "?D (Suc k) = ?D k"
      by (auto simp: less_Suc_eq)
    then show ?thesis using Suc False by simp
  qed
qed

lemma countDiff_eq: "countDiff plain cipher = differingPositions plain cipher"
  by (simp add: countDiff_def differingPositions_def countDiff_prefix)

text \<open>The histogram loop counts the occurrences of every value.\<close>

lemma histogram_fold:
  "fold countValue data freq0 v
     = (if v \<in> set data
        then Some ((case freq0 v of None \<Rightarrow> 0 | Some c \<Rightarrow> c) + count_list data v)
        else freq0 v)"
proof (induction data arbitrary: freq0)
  case Nil
  then show ?case by simp
next
  case (Cons x data)
  have "fold countValue (x # data) freq0 v = fold countValue data (countValue x freq0) v"
    by simp
  also have "\<dots> = (if v \<in> set data
        then Some ((case countValue x freq0 v of None \<Rightarrow> 0 | Some c \<Rightarrow> c) + count_list data v)
        else countValue x freq0 v)"
    by (rule Cons.IH)
  also have "\<dots> = (if v \<in> set (x # data)
        then Some ((case freq0 v of None \<Rightarrow> 0 | Some c \<Rightarrow> c) + count_list (x # data) v)
        else freq0 v)"
    by (cases "x = v") (simp_all add: countValue_def)
  finally show ?case .
qed

lemma histogram_eq:
  "histogram data v = (if v \<in> set data then Some (count_list data v) else None)"
  by (simp add: histogram_def histogram_fold)

lemma objectValues_histogram:
  "objectValues (histogram data) = map (count_list data) (observedValues data)"
proof -
  have "List.map_filter (histogram data) xs = map (count_list data) (filter (\<lambda>v. v \<in> set data) xs)"
    for xs
    by (induction xs) (simp_all add: List.map_filter_simps histogram_eq)
  then show ?thesis
    by (simp add: objectValues_def observedValues_def)
qed

lemma calculateEntropy_eq:
  assumes "data \<noteq> []"
  shows "calculateEntropy log2 (Some data) = toFixed 4 (entropySum log2 data)"
proof -
  have "fold (\<lambda>count entropy.
               (let p = fdiv (of_nat count) (of_nat (length data))
                in fsub entropy (fmul p (log2 p))))
          (map (count_list data) vs) e
      = fold (\<lambda>v entropy. fsub entropy (fmul (probability data v) (log2 (probability data v))))
          vs e" for vs e
    by (induction vs arbitrary: e) (simp_all add: probability_def Let_def)
  then show ?thesis
    using assms by (simp add: calculateEntropy_def objectValues_histogram entropySum_def Let_def)
qed

section \<open>The rounding error of the percentage\<close>

lemma roundHalfEven_error: "\<bar>of_int (roundHalfEven x) - x\<bar> \<le> 1 / 2"
proof -
  define d where "d = x - of_int \<lfloor>x\<rfloor>"
  have d: "0 \<le> d" "d < 1"
    unfolding d_def by linarith+
  have x: "x = of_int \<lfloor>x\<rfloor> + d"
    by (simp add: d_def)
  consider "d < 1 / 2" | "1 / 2 < d" | "d = 1 / 2" by linarith
  then show ?thesis
  proof cases
    case 1
    then have "roundHalfEven x = \<lfloor>x\<rfloor>"
      by (simp add: roundHalfEven_def Let_def d_def)
    then show ?thesis using d 1 by (simp add: d_def)
  next
    case 2
    then have "roundHalfEven x = \<lfloor>x\<rfloor> + 1"
      by (simp add: roundHalfEven_def Let_def d_def)
    then show ?thesis using d 2 by (simp add: d_def)
  next
    case 3
    then have "roundHalfEven x = \<lfloor>x\<rfloor> \<or> roundHalfEven x = \<lfloor>x\<rfloor> + 1"
      by (simp add: roundHalfEven_def Let_def d_def)
    then show ?thesis using 3 by (auto simp: d_def)
  qed
qed

text \<open>In the normal range a rounding moves a positive number by at most \<open>2^-53\<close> of it.\<close>

lemma round64_relative_error:
  assumes "2 powi (- 1022) \<le> x"
  shows "\<bar>round64 x - x\<bar> \<le> x * 2 powi (- 53)"
proof -
  have x: "0 < x"
    using assms by (rule less_le_trans [rotated]) simp
  then have ax: "\<bar>x\<bar> = x" by simp
  have "(2 :: rat) powi (- 1022) < 2 powi (ilog2 x + 1)"
    using assms ilog2_bounds(2) [OF x] by (rule le_less_trans)
  then have "- 1022 < ilog2 x + 1"
  proof -
    assume lt: "(2 :: rat) powi (- 1022) < 2 powi (ilog2 x + 1)"
    show ?thesis
    proof (rule ccontr)
      assume "\<not> - 1022 < ilog2 x + 1"
      then have "ilog2 x + 1 \<le> - 1022" by simp
      then have "(2 :: rat) powi (ilog2 x + 1) \<le> 2 powi (- 1022)"
        by (intro power_int_increasing) simp_all
      with lt show False by simp
    qed
  qed
  then have q: "quantum x = ilog2 x - 52"
    by (simp add: quantum_def ax)
  let ?q = "(2 :: rat) powi (ilog2 x - 52)"
  have qpos: "0 < ?q" by simp
  have r: "round64 x = of_int (roundHalfEven (x / ?q)) * ?q"
    using x by (simp add: round64_def q)
  have "\<bar>round64 x - x\<bar> = \<bar>of_int (roundHalfEven (x / ?q)) - x / ?q\<bar> * ?q"
  proof -
    have "round64 x - x = (of_int (roundHalfEven (x / ?q)) - x / ?q) * ?q"
      unfolding r using qpos by (simp add: field_simps)
    then show ?thesis
      using qpos by (simp add: abs_mult)
  qed
  also have "\<dots> \<le> 1 / 2 * ?q"
    using roundHalfEven_error [of "x / ?q"] qpos by (intro mult_right_mono) simp_all
  also have "1 / 2 * ?q = 2 powi ilog2 x * 2 powi (- 53)"
  proof -
    have a: "(2 :: rat) powi (ilog2 x + (- 53)) = 2 powi ilog2 x * 2 powi (- 53)"
      by (rule power_int_add) simp
    have b: "(2 :: rat) powi ((ilog2 x - 52) + (- 1)) = ?q * 2 powi (- 1)"
      by (rule power_int_add) simp
    have c: "ilog2 x + (- 53) = (ilog2 x - 52) + (- 1)"
      by simp
    have "(2 :: rat) powi (- 1) = 1 / 2"
      by (simp add: power_int_minus_divide)
    then have "1 / 2 * ?q = ?q * 2 powi (- 1)"
      by (simp only: mult.commute)
    also have "\<dots> = 2 powi ((ilog2 x - 52) + (- 1))"
      by (simp only: b)
    also have "\<dots> = 2 powi (ilog2 x + (- 53))"
      by (simp only: c)
    also have "\<dots> = 2 powi ilog2 x * 2 powi (- 53)"
      by (rule a)
    finally show ?thesis .
  qed
  also have "\<dots> \<le> x * 2 powi (- 53)"
    using ilog2_bounds(1) [OF x] by (intro mult_right_mono) simp_all
  finally show ?thesis .
qed

lemma round64_one: "round64 1 = 1"
  by code_simp

lemma percentage_error:
  assumes "1 \<le> d" and "d \<le> n" and "n < 2 ^ 32"
  shows "\<bar>fmul (fdiv (of_nat d) (of_nat n)) 100 - 100 * (of_nat d / of_nat n)\<bar>
         \<le> 201 * 2 powi (- 53)"
proof -
  define u :: rat where "u = 2 powi (- 53)"
  define x :: rat where "x = of_nat d / of_nat n"
  define y where "y = round64 x"
  define z where "z = round64 (y * 100)"
  have u: "0 < u" "100 * u \<le> 1" "u \<le> 1 / 2"
    by (simp_all add: u_def)
  have n: "0 < n" using assms(1,2) by simp
  have "(of_nat n :: rat) < 2 ^ 32"
    using assms(3) by (metis of_nat_less_iff of_nat_numeral of_nat_power)
  then have "(1 :: rat) / 2 ^ 32 < 1 / of_nat n"
    using n by (intro divide_strict_left_mono) simp_all
  also have "1 / of_nat n \<le> x"
    unfolding x_def using assms(1) n by (intro divide_right_mono) simp_all
  finally have xlow: "1 / 2 ^ 32 < x" .
  have xup: "x \<le> 1"
    unfolding x_def using assms(2) n by simp
  have x0: "0 < x"
    using xlow by (rule less_trans [rotated]) simp
  have "(2 :: rat) powi (- 1022) \<le> 1 / 2 ^ 32"
    by simp
  then have "2 powi (- 1022) \<le> x"
    using xlow by simp
  then have ey: "\<bar>y - x\<bar> \<le> x * u"
    unfolding y_def u_def by (rule round64_relative_error)
  have xu: "x * u \<le> u" "x * u \<le> x / 2"
    using xup x0 u by (simp_all add: mult_left_le_one_le mult.commute)
  have ylow: "x / 2 \<le> y" and yup: "y \<le> 1 + u"
    using ey xu xup by (simp_all add: abs_le_iff)
  have "(2 :: rat) powi (- 1022) \<le> 1 / 2 ^ 32 / 2 * 100"
    by simp
  also have "\<dots> \<le> x / 2 * 100"
    using xlow by simp
  also have "\<dots> \<le> y * 100"
    using ylow by simp
  finally have "2 powi (- 1022) \<le> y * 100" .
  then have ez: "\<bar>z - y * 100\<bar> \<le> y * 100 * u"
    unfolding z_def u_def by (rule round64_relative_error)
  have "y * 100 * u \<le> (1 + u) * 100 * u"
    using yup u(1) by (intro mult_right_mono) simp_all
  also have "\<dots> = 100 * u + (100 * u) * u"
    by (simp add: algebra_simps)
  also have "\<dots> \<le> 100 * u + 1 * u"
    using u by (intro add_left_mono mult_right_mono) simp_all
  finally have yz: "y * 100 * u \<le> 101 * u"
    by simp
  have "\<bar>z - 100 * x\<bar> = \<bar>(z - y * 100) + 100 * (y - x)\<bar>"
    by (simp add: algebra_simps)
  also have "\<dots> \<le> \<bar>z - y * 100\<bar> + \<bar>100 * (y - x)\<bar>"
    by (rule abs_triangle_ineq)
  also have "\<dots> = \<bar>z - y * 100\<bar> + 100 * \<bar>y - x\<bar>"
    by (simp only: abs_mult abs_numeral)
  also have "\<dots> \<le> 101 * u + 100 * u"
    using ez yz ey xu(1) by (intro add_mono) simp_all
  finally have "\<bar>z - 100 * x\<bar> \<le> 201 * u"
    by simp
  then show ?thesis
    by (simp add: z_def y_def x_def u_def fmul_def fdiv_def)
qed

text \<open>
  Rounding to an integer after an error far below \<open>1 / (2 n)\<close> still gives an integer
  nearest to the exact value \<open>10000 d / n\<close>: that value is a half-integer or at least
  \<open>1 / (2 n)\<close> away from every half-integer.
\<close>

lemma nearest_after_error:
  fixes w :: rat
  assumes "0 < n" and "n < 2 ^ 32"
    and "\<bar>w - 10000 * of_nat d / of_nat n\<bar> \<le> 20100 * 2 powi (- 53)"
  shows "\<bar>(of_int \<lfloor>w + 1 / 2\<rfloor> :: rat) - 10000 * of_nat d / of_nat n\<bar> \<le> 1 / 2"
proof -
  define E :: rat where "E = 10000 * of_nat d / of_nat n"
  define \<delta> :: rat where "\<delta> = 20100 * 2 powi (- 53)"
  define A :: int where "A = 20000 * int d + int n"
  define K where "K = A div (2 * int n)"
  define \<rho> where "\<rho> = A mod (2 * int n)"
  have n2: "0 < 2 * int n" using assms(1) by simp
  have \<rho>: "0 \<le> \<rho>" "\<rho> < 2 * int n"
    unfolding \<rho>_def using n2 by simp_all
  have A: "A = K * (2 * int n) + \<rho>"
    unfolding K_def \<rho>_def by (rule div_mult_mod_eq [symmetric])
  have nq: "0 < (of_nat n :: rat)" using assms(1) by simp
  have "E + 1 / 2 = of_int A / (2 * of_nat n)"
    using nq by (simp add: E_def A_def field_simps)
  also have "\<dots> = of_int K + of_int \<rho> / (2 * of_nat n)"
    using nq by (simp add: A field_simps)
  finally have E: "E + 1 / 2 = of_int K + of_int \<rho> / (2 * of_nat n)" .
  have "(2 * of_nat n :: rat) < 2 * 2 ^ 32"
    using assms(2) by (metis mult_strict_left_mono of_nat_less_iff of_nat_numeral of_nat_power zero_less_numeral)
  then have "(1 :: rat) / (2 * 2 ^ 32) < 1 / (2 * of_nat n)"
    using nq by (intro divide_strict_left_mono) simp_all
  moreover have "\<delta> < 1 / (2 * 2 ^ 32)"
    by (simp add: \<delta>_def)
  ultimately have small: "\<delta> < 1 / (2 * of_nat n)"
    by simp
  have \<delta>0: "0 \<le> \<delta>" and \<delta>1: "\<delta> < 1"
    by (simp_all add: \<delta>_def)
  have "\<bar>w - E\<bar> \<le> \<delta>"
    unfolding E_def \<delta>_def by (rule assms(3))
  then have w: "E - \<delta> \<le> w" "w \<le> E + \<delta>"
    by linarith+
  have "\<bar>of_int \<lfloor>w + 1 / 2\<rfloor> - E\<bar> \<le> 1 / 2"
  proof (cases "\<rho> = 0")
    case True
    then have EK: "E + 1 / 2 = of_int K"
      using E by simp
    have "of_int (K - 1) \<le> w + 1 / 2" and "w + 1 / 2 < of_int (K + 1)"
      using w EK \<delta>1 \<delta>0 by simp_all
    then have "K - 1 \<le> \<lfloor>w + 1 / 2\<rfloor>" and "\<lfloor>w + 1 / 2\<rfloor> < K + 1"
      by (simp_all only: le_floor_iff floor_less_iff)
    then have "\<lfloor>w + 1 / 2\<rfloor> = K - 1 \<or> \<lfloor>w + 1 / 2\<rfloor> = K"
      by linarith
    then show ?thesis
      using EK by auto
  next
    case False
    then have "1 \<le> \<rho>" using \<rho>(1) by simp
    then have "(1 :: rat) \<le> of_int \<rho>"
      by (metis of_int_1 of_int_le_iff)
    then have lo: "(1 :: rat) / (2 * of_nat n) \<le> of_int \<rho> / (2 * of_nat n)"
      using nq by (intro divide_right_mono) simp_all
    have "\<rho> \<le> 2 * int n - 1" using \<rho>(2) by simp
    then have "(of_int \<rho> :: rat) \<le> of_int (2 * int n - 1)"
      by (simp only: of_int_le_iff)
    then have "(of_int \<rho> :: rat) / (2 * of_nat n) \<le> (2 * of_nat n - 1) / (2 * of_nat n)"
      using nq by (intro divide_right_mono) simp_all
    also have "\<dots> = 1 - 1 / (2 * of_nat n)"
      using nq by (simp add: field_simps)
    finally have hi: "(of_int \<rho> :: rat) / (2 * of_nat n) \<le> 1 - 1 / (2 * of_nat n)" .
    have "of_int K \<le> w + 1 / 2" and "w + 1 / 2 < of_int K + 1"
      using w E lo hi small by linarith+
    then have "\<lfloor>w + 1 / 2\<rfloor> = K"
      by (intro floor_unique)
    moreover have "0 < 1 / (2 * of_nat n :: rat)"
      using nq by simp
    then have "\<bar>of_int K - E\<bar> \<le> 1 / 2"
      using E lo hi by linarith
    ultimately show ?thesis
      by simp
  qed
  then show ?thesis
    by (simp only: E_def)
qed

lemma differingPositions_le: "differingPositions a b \<le> length a"
proof -
  have "{i. i < length a \<and> a ! i \<noteq> b ! i} \<subseteq> {..<length a}"
    by auto
  then have "card {i. i < length a \<and> a ! i \<noteq> b ! i} \<le> card {..<length a}"
    by (intro card_mono) simp_all
  then show ?thesis
    by (simp add: differingPositions_def)
qed

lemma toFixed_2_nonneg:
  assumes "0 \<le> z"
  shows "toFixed 2 z = formatFixed 2 (nat \<lfloor>z * 100 + 1 / 2\<rfloor>)"
  using assms by (simp add: toFixed_def not_less [symmetric])

lemma calculateNPCR_nearest:
  assumes "length a = length b" and "a \<noteq> []" and "length a < 2 ^ 32"
  shows "\<exists>N. calculateNPCR (Some a) (Some b) = formatFixed 2 N
           \<and> \<bar>(of_nat N :: rat) - 10000 * of_nat (differingPositions a b) / of_nat (length a)\<bar>
               \<le> 1 / 2"
proof -
  define d where "d = differingPositions a b"
  define n where "n = length a"
  define z where "z = fmul (fdiv (of_nat d) (of_nat n)) 100"
  have n: "0 < n" "n < 2 ^ 32" and dn: "d \<le> n"
    using assms(2,3) differingPositions_le [of a b] by (simp_all add: n_def d_def)
  have npcr: "calculateNPCR (Some a) (Some b) = toFixed 2 z"
    using assms(1,2) by (auto simp: calculateNPCR_def countDiff_eq z_def d_def n_def)
  have z0: "0 \<le> z"
    unfolding z_def fmul_def fdiv_def
    by (intro round64_nonneg mult_nonneg_nonneg divide_nonneg_nonneg) simp_all
  define N where "N = nat \<lfloor>z * 100 + 1 / 2\<rfloor>"
  have "0 \<le> \<lfloor>z * 100 + 1 / 2\<rfloor>"
    using z0 by simp
  then have N: "(of_nat N :: rat) = of_int \<lfloor>z * 100 + 1 / 2\<rfloor>"
    by (simp add: N_def)
  have err: "\<bar>z * 100 - 10000 * of_nat d / of_nat n\<bar> \<le> 20100 * 2 powi (- 53)"
  proof (cases "d = 0")
    case True
    then have "z = 0"
      by (simp add: z_def fmul_def fdiv_def round64_def)
    then show ?thesis using True by simp
  next
    case False
    then have "1 \<le> d" by simp
    then have "\<bar>z - 100 * (of_nat d / of_nat n)\<bar> \<le> 201 * 2 powi (- 53)"
      unfolding z_def using dn n(2) by (rule percentage_error)
    then have "100 * \<bar>z - 100 * (of_nat d / of_nat n)\<bar> \<le> 100 * (201 * 2 powi (- 53))"
      by (intro mult_left_mono) simp_all
    moreover have "100 * \<bar>z - 100 * (of_nat d / of_nat n)\<bar>
        = \<bar>z * 100 - 10000 * of_nat d / of_nat n\<bar>"
    proof -
      have "z * 100 - 10000 * of_nat d / of_nat n = 100 * (z - 100 * (of_nat d / of_nat n))"
        by (simp add: algebra_simps)
      then show ?thesis
        by (simp only: abs_mult abs_numeral)
    qed
    ultimately show ?thesis by simp
  qed
  have "\<bar>(of_int \<lfloor>z * 100 + 1 / 2\<rfloor> :: rat) - 10000 * of_nat d / of_nat n\<bar> \<le> 1 / 2"
    using n err by (rule nearest_after_error)
  then have "\<bar>(of_nat N :: rat) - 10000 * of_nat d / of_nat n\<bar> \<le> 1 / 2"
    by (simp only: N)
  moreover have "calculateNPCR (Some a) (Some b) = formatFixed 2 N"
    unfolding npcr N_def using z0 by (rule toFixed_2_nonneg)
  ultimately show ?thesis
    unfolding d_def n_def by blast
qed

section \<open>Claim C7: the hash refines the specified accumulator\<close>

text \<open>
  Claim C7. For every key string, the hash that \<open>_initializeSeed\<close> computes with
  \<open>((hash << 5) - hash + charCode) | 0\<close> at each character equals the reference
  accumulator that computes \<open>hash * 31 + charCode\<close> and wraps the result to a 32-bit
  two's-complement signed integer at each step.
\<close>

theorem C7_keyHash_refines_hashSpec: "keyHash key = hashSpec 0 key"
  unfolding keyHash_def by (rule foldl_hashStep_spec)

section \<open>Claim C2: the permutation invariant\<close>

text \<open>
  Claim C2. For every machine returned by \<open>buildMealyMachine\<close> and every state \<open>s\<close> in
  \<open>[0, n)\<close>, \<open>lambdaTable[s]\<close> is a bijection (a permutation) of \<open>[0, m)\<close> and
  \<open>lambdaInv[s]\<close> is its exact inverse, that is
  \<open>lambdaInv[s][lambdaTable[s][x]] = x\<close> for every \<open>x\<close> in \<open>[0, m)\<close>; this holds at all
  times after construction. The alphabet is one of bytes (\<open>perm\<close> is a \<open>Uint8Array\<close>), so
  \<open>m\<close> is at most 256; the application builds with \<open>m = 256\<close>. After construction only
  \<open>encryptBytes\<close> and \<open>decryptBytes\<close> touch the machine, and they return it with the
  same two tables.
\<close>

theorem C2_permutation_invariant:
  assumes "mAlphabet \<le> 256" and "s < nStates"
    and "M = buildMealyMachine mooreGen nStates mAlphabet"
  shows "bij_betw (\<lambda>x. lambdaTable M ! s ! x) {0..<mAlphabet} {0..<int mAlphabet}
       \<and> length (lambdaTable M ! s) = mAlphabet \<and> length (lambdaInv M ! s) = mAlphabet
       \<and> (\<forall>x < mAlphabet. lambdaInv M ! s ! nat (lambdaTable M ! s ! x) = int x)
       \<and> (\<forall>y < mAlphabet. lambdaTable M ! s ! nat (lambdaInv M ! s ! y) = int y)
       \<and> (\<forall>bytes M' out tr.
             encryptBytes M bytes = Inr (M', out, tr) \<or> decryptBytes M bytes = Inr (M', out, tr)
             \<longrightarrow> lambdaTable M' = lambdaTable M \<and> lambdaInv M' = lambdaInv M
                 \<and> permutationInvariant M')"
proof -
  have inv: "permutationInvariant M"
    unfolding assms(3) using assms(1) by (rule buildMealyMachine_permutationInvariant)
  have fields: "this_n M = nStates" "this_m M = mAlphabet"
    unfolding assms(3) by (simp_all add: buildMealyMachine_fields)
  have s: "s \<in> {0..<this_n M}"
    using assms(2) fields by simp
  have row: "length (lambdaTable M ! s) = mAlphabet" "length (lambdaInv M ! s) = mAlphabet"
    "distinct (lambdaTable M ! s)" "set (lambdaTable M ! s) = {0..<int mAlphabet}"
    "\<forall>x \<in> {0..<mAlphabet}. lambdaInv M ! s ! nat (lambdaTable M ! s ! x) = int x"
    "\<forall>y \<in> {0..<mAlphabet}. lambdaTable M ! s ! nat (lambdaInv M ! s ! y) = int y"
    using inv s fields unfolding permutationInvariant_def by simp_all
  have "bij_betw ((!) (lambdaTable M ! s)) {..<length (lambdaTable M ! s)} (set (lambdaTable M ! s))"
    using row(3) by (intro bij_betw_nth) simp_all
  then have bij: "bij_betw (\<lambda>x. lambdaTable M ! s ! x) {0..<mAlphabet} {0..<int mAlphabet}"
    using row(1,4) by (simp add: atLeast0LessThan)
  have after: "lambdaTable M' = lambdaTable M \<and> lambdaInv M' = lambdaInv M \<and> permutationInvariant M'"
    if "encryptBytes M bytes = Inr (M', out, tr) \<or> decryptBytes M bytes = Inr (M', out, tr)"
    for bytes M' out tr
  proof -
    have "M' = M\<lparr>currentState := currentState M'\<rparr>"
      using that encryptBytes_tables decryptBytes_tables by blast
    then have "lambdaTable M' = lambdaTable M" "lambdaInv M' = lambdaInv M"
      "permutationInvariant M' = permutationInvariant M"
      by (metis MealyMachine.select_convs(5) MealyMachine.surjective MealyMachine.update_convs(3),
          metis MealyMachine.select_convs(6) MealyMachine.surjective MealyMachine.update_convs(3),
          metis permutationInvariant_currentState)
    then show ?thesis using inv by simp
  qed
  show ?thesis
    using bij row(1,2,5,6) after by simp
qed

theorem C2_permutation_invariant_witness:
  "bij_betw (\<lambda>x. lambdaTable (buildMealyMachine (newLogisticMooreDefault testKey) 1024 256) ! 7 ! x)
     {0..<256} {0..<int 256}
   \<and> lambdaInv (buildMealyMachine (newLogisticMooreDefault testKey) 1024 256) ! 7
       ! nat (lambdaTable (buildMealyMachine (newLogisticMooreDefault testKey) 1024 256) ! 7 ! 72)
     = int 72"
proof -
  have "(256 :: nat) \<le> 256" and "(7 :: nat) < 1024"
    by simp_all
  from C2_permutation_invariant [OF this refl, of "newLogisticMooreDefault testKey"]
  show ?thesis by simp
qed

section \<open>Claim C4: the encryption algorithm\<close>

text \<open>
  Claim C4. Every \<open>encryptBytes\<close> call first sets \<open>currentState\<close> to 0 and applies
  exactly 500 data-independent warm-up transitions
  \<open>currentState = delta[currentState][j mod 256]\<close> for \<open>j\<close> in \<open>[0, 500)\<close>; then for each
  0-based input index \<open>i\<close> with pre-state \<open>s\<close> and input byte \<open>x\<close> it emits the output
  \<open>lambda[s][x]\<close> and sets the next state to \<open>(delta[s][x] + i) mod n\<close>; the returned
  ciphertext has the length of the input and the returned trajectory has exactly
  \<open>min(length, 20)\<close> entries, entry \<open>t\<close> recording
  \<open>(t, s, input byte, next state, output byte)\<close>.

  The machine is one that \<open>buildMealyMachine\<close> returned for the 256-symbol alphabet,
  whatever \<open>currentState\<close> an earlier call left in it. \<open>warmState\<close> and \<open>encState\<close> are
  the recursions of the claim: \<open>warmState M 0 = 0\<close>,
  \<open>warmState M (j + 1) = delta[warmState M j][j mod 256]\<close>,
  \<open>encState M bytes 0 = warmState M 500\<close> and
  \<open>encState M bytes (i + 1) = (delta[encState M bytes i][bytes[i]] + i) mod n\<close>.
\<close>

theorem C4_encrypt_algorithm:
  assumes "0 < nStates" and "nStates \<le> 2 ^ 31"
    and "M = buildMealyMachine mooreGen nStates 256"
  shows "\<exists>ciphertext traj.
           encryptBytes (M\<lparr>currentState := cs\<rparr>) bytes =
             Inr (M\<lparr>currentState := Some (encState M bytes (length bytes))\<rparr>, ciphertext, traj)
         \<and> resetAndWarm (M\<lparr>currentState := cs\<rparr>) = Inr (Some (warmState M 500))
         \<and> length ciphertext = length bytes
         \<and> (\<forall>i < length bytes.
               uint (ciphertext ! i) = lambdaTable M ! nat (encState M bytes i) ! unat (bytes ! i))
         \<and> length traj = min (length bytes) 20
         \<and> (\<forall>t < min (length bytes) 20.
               traj ! t =
                 \<lparr> step_t = t, step_s = Some (encState M bytes t),
                   step_i = Some (uint (bytes ! t)),
                   step_sPrime = Some (encState M bytes (Suc t)),
                   step_o = Some (lambdaTable M ! nat (encState M bytes t) ! unat (bytes ! t)) \<rparr>)"
proof -
  let ?M = "M\<lparr>currentState := cs\<rparr>"
  have wf: "wellFormed M"
    unfolding assms(3) using assms(1,2) by (rule buildMealyMachine_wellFormed)
  then have wf': "wellFormed ?M" by simp
  let ?ct = "map (\<lambda>i. word_of_int (encOutput M bytes i) :: 8 word) [0..<length bytes]"
  let ?tr = "map (encTrajectoryStep M bytes) [0..<min (length bytes) 20]"
  have out: "encOutput ?M bytes = encOutput M bytes"
    and stp: "encTrajectoryStep ?M bytes = encTrajectoryStep M bytes"
    by (simp_all add: fun_eq_iff encOutput_def encTrajectoryStep_def)
  have enc: "encryptBytes ?M bytes =
      Inr (M\<lparr>currentState := Some (encState M bytes (length bytes))\<rparr>, ?ct, ?tr)"
    using encryptBytes_eq [OF wf', of bytes] by (simp add: out stp)
  have warm: "resetAndWarm ?M = Inr (Some (warmState M 500))"
    using resetAndWarm_eq [OF wf'] by simp
  have byte: "uint (?ct ! i) = lambdaTable M ! nat (encState M bytes i) ! unat (bytes ! i)"
    if "i < length bytes" for i
  proof -
    have s: "0 \<le> encState M bytes i" "encState M bytes i < int (this_n M)"
      using encState_range [OF wf] by simp_all
    have x: "unat (bytes ! i) < 256" by (rule unat_byte_less)
    have "unat (word_of_int (encOutput M bytes i) :: 8 word) = nat (encOutput M bytes i)"
      unfolding encOutput_def
      using wellFormed_entries(3,4) [OF wf s x] by (rule unat_word_of_int_byte)
    then have "uint (word_of_int (encOutput M bytes i) :: 8 word) = encOutput M bytes i"
      using wellFormed_entries(3) [OF wf s x] by (simp add: uint_nat encOutput_def)
    then show ?thesis using that by (simp add: encOutput_def)
  qed
  have step: "?tr ! t =
        \<lparr> step_t = t, step_s = Some (encState M bytes t), step_i = Some (uint (bytes ! t)),
          step_sPrime = Some (encState M bytes (Suc t)),
          step_o = Some (lambdaTable M ! nat (encState M bytes t) ! unat (bytes ! t)) \<rparr>"
    if "t < min (length bytes) 20" for t
    using that by (simp add: encTrajectoryStep_def encOutput_def)
  have "length ?ct = length bytes" and "length ?tr = min (length bytes) 20"
    by simp_all
  with enc warm byte step show ?thesis
    by blast
qed

theorem C4_encrypt_algorithm_witness:
  "\<exists>ciphertext traj.
     encryptBytes ((buildMealyMachine (newLogisticMooreDefault testKey) 1024 256)
                     \<lparr>currentState := Some 0\<rparr>) testPlain =
       Inr ((buildMealyMachine (newLogisticMooreDefault testKey) 1024 256)
              \<lparr>currentState :=
                 Some (encState (buildMealyMachine (newLogisticMooreDefault testKey) 1024 256)
                         testPlain (length testPlain))\<rparr>,
            ciphertext, traj)
     \<and> length ciphertext = length testPlain
     \<and> length traj = min (length testPlain) 20"
proof -
  have "(0 :: nat) < 1024" and "(1024 :: nat) \<le> 2 ^ 31"
    by simp_all
  from C4_encrypt_algorithm [OF this refl, where mooreGen = "newLogisticMooreDefault testKey"
      and cs = "Some 0" and bytes = testPlain]
  show ?thesis
    by blast
qed

section \<open>Claim C1: the round trip\<close>

text \<open>
  Claim C1. For every key string \<open>K\<close> and every byte sequence \<open>P\<close>, building the machine
  from \<open>K\<close> and running \<open>decryptBytes\<close> on the ciphertext that \<open>encryptBytes(P)\<close>
  returned yields exactly \<open>P\<close>; in particular, with key \<open>"test"\<close> and plaintext bytes
  \<open>[72, 105]\<close>, encrypt-then-decrypt returns \<open>[72, 105]\<close>.

  The theorem holds for every generator, so for the one of every key, and for the
  machine in whatever \<open>currentState\<close> earlier calls left it, on the side that encrypts
  (\<open>cs\<close>) and on the side that decrypts (\<open>cs'\<close>). The witness is the scenario of the
  claim, with the application's 1024 states.
\<close>

theorem C1_round_trip:
  assumes "0 < nStates" and "nStates \<le> 2 ^ 31"
    and "M = buildMealyMachine (newLogisticMoore key steps) nStates 256"
  shows "\<exists>M1 ciphertext traj1 M2 traj2.
           encryptBytes (M\<lparr>currentState := cs\<rparr>) P = Inr (M1, ciphertext, traj1)
         \<and> decryptBytes (M\<lparr>currentState := cs'\<rparr>) ciphertext = Inr (M2, P, traj2)
         \<and> decryptBytes M1 ciphertext = Inr (M2, P, traj2)"
proof -
  have wf: "wellFormed M"
    unfolding assms(3) using assms(1,2) by (rule buildMealyMachine_wellFormed)
  let ?ct = "map (\<lambda>i. word_of_int (encOutput M P i) :: 8 word) [0..<length P]"
  let ?M1 = "M\<lparr>currentState := Some (encState M P (length P))\<rparr>"
  have out: "encOutput (M\<lparr>currentState := c\<rparr>) = encOutput M"
    and dout: "decOutput (M\<lparr>currentState := c\<rparr>) = decOutput M"
    and stp: "encTrajectoryStep (M\<lparr>currentState := c\<rparr>) = encTrajectoryStep M"
    and dstp: "decTrajectoryStep (M\<lparr>currentState := c\<rparr>) = decTrajectoryStep M" for c
    by (simp_all add: fun_eq_iff encOutput_def encTrajectoryStep_def decOutput_def
        decTrajectoryStep_def)
  have enc: "encryptBytes (M\<lparr>currentState := cs\<rparr>) P =
      Inr (?M1, ?ct, map (encTrajectoryStep M P) [0..<min (length P) 20])"
    using encryptBytes_eq [of "M\<lparr>currentState := cs\<rparr>" P] wf by (simp add: out stp)
  have rec: "map (\<lambda>i. word_of_int (decOutput M ?ct i)) [0..<length ?ct] = P"
    using wf by (rule decrypt_recovers) simp
  have dec: "decryptBytes (M\<lparr>currentState := c\<rparr>) ?ct =
      Inr (M\<lparr>currentState := Some (decState M ?ct (length ?ct))\<rparr>, P,
           map (decTrajectoryStep M ?ct) [0..<min (length ?ct) 20])" for c
    using decryptBytes_eq [of "M\<lparr>currentState := c\<rparr>" ?ct] wf rec
    by (simp add: dout dstp)
  from enc dec [of cs'] dec [of "Some (encState M P (length P))"] show ?thesis
    by auto
qed

theorem C1_round_trip_witness:
  "\<exists>M1 ciphertext traj1 M2 traj2.
     encryptBytes ((buildMealyMachine (newLogisticMoore testKey 1000) 1024 256)
                     \<lparr>currentState := Some 0\<rparr>) testPlain = Inr (M1, ciphertext, traj1)
   \<and> decryptBytes ((buildMealyMachine (newLogisticMoore testKey 1000) 1024 256)
                     \<lparr>currentState := Some 0\<rparr>) ciphertext = Inr (M2, testPlain, traj2)"
proof -
  have "(0 :: nat) < 1024" and "(1024 :: nat) \<le> 2 ^ 31"
    by simp_all
  from C1_round_trip [OF this refl, where key = testKey and steps = 1000
      and cs = "Some 0" and cs' = "Some 0" and P = testPlain]
  show ?thesis
    by blast
qed

section \<open>Claim C10: every table access is in bounds\<close>

text \<open>
  Claim C10. For any machine produced by \<open>buildMealyMachine\<close> (whose \<open>delta\<close> entries
  are all in \<open>[0, n)\<close>, being computed modulo \<open>nStates\<close>), \<open>currentState\<close> remains in
  \<open>[0, n)\<close> before and after every warm-up step and every per-byte step of
  \<open>encryptBytes\<close> and \<open>decryptBytes\<close>, so every access to \<open>delta\<close>, \<open>lambdaTable\<close> and
  \<open>lambdaInv\<close> is within the bounds of the table and no out-of-range lookup can occur
  for any byte input.

  The three tables have \<open>n\<close> rows of 256 entries. A row index is \<open>currentState\<close>; a
  column index is a byte of the input, \<open>j mod 256\<close>, or the symbol that \<open>lambdaInv\<close>
  recovered. So the accesses are in bounds when the state stays in \<open>[0, n)\<close> after
  every step of each loop and the entries of \<open>lambdaInv\<close> are in \<open>[0, 256)\<close>; and then
  neither call throws.
\<close>

theorem C10_in_bounds:
  assumes "0 < nStates" and "nStates \<le> 2 ^ 31"
    and "M0 = buildMealyMachine mooreGen nStates 256" and "M = M0\<lparr>currentState := cs\<rparr>"
  shows "length (delta M) = nStates \<and> length (lambdaTable M) = nStates
       \<and> length (lambdaInv M) = nStates
       \<and> (\<forall>s < nStates.
             length (delta M ! s) = 256 \<and> length (lambdaTable M ! s) = 256
             \<and> length (lambdaInv M ! s) = 256
             \<and> (\<forall>x < 256. 0 \<le> delta M ! s ! x \<and> delta M ! s ! x < int nStates
                          \<and> 0 \<le> lambdaInv M ! s ! x \<and> lambdaInv M ! s ! x < 256))
       \<and> (\<forall>j \<le> 500. \<exists>s. warmPrefix M j = Inr (Some s) \<and> 0 \<le> s \<and> s < int nStates)
       \<and> (\<forall>k \<le> length bytes.
             \<exists>st s. encryptPrefix M bytes k = Inr st \<and> cur st = Some s \<and> 0 \<le> s \<and> s < int nStates)
       \<and> (\<forall>k \<le> length bytes.
             \<exists>st s. decryptPrefix M bytes k = Inr st \<and> cur st = Some s \<and> 0 \<le> s \<and> s < int nStates)
       \<and> (\<exists>r. encryptBytes M bytes = Inr r) \<and> (\<exists>r. decryptBytes M bytes = Inr r)"
proof -
  have wf0: "wellFormed M0"
    unfolding assms(3) using assms(1,2) by (rule buildMealyMachine_wellFormed)
  then have wf: "wellFormed M"
    unfolding assms(4) by simp
  have n: "this_n M = nStates"
    unfolding assms(3,4) by (simp add: buildMealyMachine_fields)
  have sizes: "length (delta M) = nStates \<and> length (lambdaTable M) = nStates
       \<and> length (lambdaInv M) = nStates"
    using wf n by (simp add: wellFormed_def)
  have rows: "length (delta M ! s) = 256 \<and> length (lambdaTable M ! s) = 256
       \<and> length (lambdaInv M ! s) = 256
       \<and> (\<forall>x < 256. 0 \<le> delta M ! s ! x \<and> delta M ! s ! x < int nStates
                    \<and> 0 \<le> lambdaInv M ! s ! x \<and> lambdaInv M ! s ! x < 256)"
    if "s < nStates" for s
    using wf n that unfolding wellFormed_def by simp
  have warm: "\<exists>s. warmPrefix M j = Inr (Some s) \<and> 0 \<le> s \<and> s < int nStates" for j
    using warm_prefix [OF wf, of j] n by (simp add: warmPrefix_def)
  have enc: "\<exists>st s. encryptPrefix M bytes k = Inr st \<and> cur st = Some s \<and> 0 \<le> s \<and> s < int nStates"
    if "k \<le> length bytes" for k
    using encrypt_prefix [OF wf that] resetAndWarm_eq [OF wf] encState_range [OF wf, of bytes k] n
    by (simp add: encryptPrefix_def)
  have dec: "\<exists>st s. decryptPrefix M bytes k = Inr st \<and> cur st = Some s \<and> 0 \<le> s \<and> s < int nStates"
    if "k \<le> length bytes" for k
    using decrypt_prefix [OF wf that] resetAndWarm_eq [OF wf] decState_range [OF wf, of bytes k] n
    by (simp add: decryptPrefix_def)
  have "\<exists>r. encryptBytes M bytes = Inr r" and "\<exists>r. decryptBytes M bytes = Inr r"
    using encryptBytes_eq [OF wf] decryptBytes_eq [OF wf] by simp_all
  with sizes rows warm enc dec show ?thesis
    by simp
qed

theorem C10_in_bounds_witness:
  "(\<exists>s. warmPrefix ((buildMealyMachine (newLogisticMooreDefault testKey) 1024 256)
                      \<lparr>currentState := Some 0\<rparr>) 500 = Inr (Some s) \<and> 0 \<le> s \<and> s < int 1024)
   \<and> (\<exists>st s. decryptPrefix ((buildMealyMachine (newLogisticMooreDefault testKey) 1024 256)
                               \<lparr>currentState := Some 0\<rparr>) testPlain 2 = Inr st
              \<and> cur st = Some s \<and> 0 \<le> s \<and> s < int 1024)"
proof -
  have "(0 :: nat) < 1024" and "(1024 :: nat) \<le> 2 ^ 31"
    by simp_all
  from C10_in_bounds [OF this refl refl, where mooreGen = "newLogisticMooreDefault testKey"
      and cs = "Some 0" and bytes = testPlain]
  show ?thesis
    by (simp add: testPlain_def)
qed

section \<open>Claim C3: the entropy that the build consumes\<close>

text \<open>
  Claim C3, as amended. With \<open>n\<close> states and \<open>m\<close> symbols (the application: 1024 and
  256), \<open>buildMealyMachine\<close> asks the generator for exactly \<open>2 * n * m\<close> integers and
  reads them in one continuous cursor pass in fixed order. The transition fill
  consumes the first \<open>n * m\<close> values, one per \<open>delta[s][i]\<close> assignment, states outer
  and inputs inner: \<open>delta[s][i] = entropy[s * m + i] mod n\<close>. The output-permutation
  fill then consumes \<open>m - 1\<close> values per state, \<open>n * (m - 1)\<close> in all: the shuffle of
  state \<open>s\<close> starts at cursor \<open>n * m + s * (m - 1)\<close>. The cursor stops at
  \<open>2 * n * m - n\<close>, and the last \<open>n\<close> values of the stream are never read: any stream
  with the same first \<open>2 * n * m - n\<close> values gives the same tables.
\<close>

theorem C3_entropy_consumed:
  assumes "0 < nStates" and "nStates \<le> 2 ^ 31" and "0 < mAlphabet"
    and "entropy = fst (generateStream mooreGen (totalNeeded nStates mAlphabet))"
    and "b = buildLocals mooreGen nStates mAlphabet"
  shows "length entropy = 2 * nStates * mAlphabet
       \<and> b = fillLambda entropy nStates mAlphabet
               (fillDelta entropy nStates mAlphabet
                  \<lparr> machine = newMealyMachine nStates mAlphabet, cursor = 0 \<rparr>)
       \<and> cursor (fillDelta entropy nStates mAlphabet
                  \<lparr> machine = newMealyMachine nStates mAlphabet, cursor = 0 \<rparr>)
           = nStates * mAlphabet
       \<and> (\<forall>s < nStates. \<forall>i < mAlphabet.
             delta (machine b) ! s ! i = uint (entropy ! (s * mAlphabet + i)) mod int nStates)
       \<and> (\<forall>s < nStates.
             lambdaTable (machine b) ! s
               = map uint (fst (shuffle entropy mAlphabet (nStates * mAlphabet + s * (mAlphabet - 1))))
             \<and> snd (shuffle entropy mAlphabet (nStates * mAlphabet + s * (mAlphabet - 1)))
               = nStates * mAlphabet + s * (mAlphabet - 1) + (mAlphabet - 1))
       \<and> cursor b = nStates * mAlphabet + nStates * (mAlphabet - 1)
       \<and> cursor b + nStates = 2 * nStates * mAlphabet
       \<and> (\<forall>entropy'. take (cursor b) entropy' = take (cursor b) entropy
             \<longrightarrow> fillTables entropy' nStates mAlphabet = b)"
proof -
  have len: "length entropy = 2 * nStates * mAlphabet"
    unfolding assms(4) by (simp add: generateStream_length totalNeeded_def)
  have b: "b = fillTables entropy nStates mAlphabet"
    unfolding assms(4,5) by (simp add: buildLocals_def)
  then have pass: "b = fillLambda entropy nStates mAlphabet
               (fillDelta entropy nStates mAlphabet
                  \<lparr> machine = newMealyMachine nStates mAlphabet, cursor = 0 \<rparr>)"
    by (simp add: fillTables_def)
  have c1: "cursor (fillDelta entropy nStates mAlphabet
                  \<lparr> machine = newMealyMachine nStates mAlphabet, cursor = 0 \<rparr>)
           = nStates * mAlphabet"
    by (simp add: fillDelta_new)
  have total: "totalNeeded nStates mAlphabet \<le> length entropy"
    using len by (simp add: totalNeeded_def)
  have d: "delta (machine b) ! s ! i = uint (entropy ! (s * mAlphabet + i)) mod int nStates"
    if "s < nStates" "i < mAlphabet" for s i
  proof -
    have "s * mAlphabet + i < length entropy"
      using that total by (rule delta_draws_inside)
    then have "deltaRow entropy nStates mAlphabet (s * mAlphabet) ! i
        = uint (entropy ! (s * mAlphabet + i)) mod int nStates"
      using that(2) by (intro deltaRow_entry [OF assms(1,2)])
    then show ?thesis using that(1) by (simp add: b fillTables_eq)
  qed
  have l: "lambdaTable (machine b) ! s
        = map uint (fst (shuffle entropy mAlphabet (nStates * mAlphabet + s * (mAlphabet - 1))))
      \<and> snd (shuffle entropy mAlphabet (nStates * mAlphabet + s * (mAlphabet - 1)))
        = nStates * mAlphabet + s * (mAlphabet - 1) + (mAlphabet - 1)"
    if "s < nStates" for s
    using that by (simp add: b fillTables_eq lambdaRow_eq shuffle_cursor)
  have c2: "cursor b = nStates * mAlphabet + nStates * (mAlphabet - 1)"
    by (simp add: b fillTables_eq)
  have "nStates * (mAlphabet - 1) + nStates = nStates * mAlphabet"
    using assms(3) by (cases mAlphabet) simp_all
  then have c3: "cursor b + nStates = 2 * nStates * mAlphabet"
    using c2 by simp
  have inside: "nStates * mAlphabet + nStates * (mAlphabet - 1) \<le> length entropy"
    using c2 c3 len by simp
  have tail: "fillTables entropy' nStates mAlphabet = b"
    if "take (cursor b) entropy' = take (cursor b) entropy" for entropy'
  proof -
    have "take (nStates * mAlphabet + nStates * (mAlphabet - 1)) entropy'
        = take (nStates * mAlphabet + nStates * (mAlphabet - 1)) entropy"
      using that by (simp only: c2)
    then have "fillTables entropy' nStates mAlphabet = fillTables entropy nStates mAlphabet"
      by (rule unread_tail [OF inside])
    then show ?thesis by (simp only: b)
  qed
  show ?thesis
    using len pass c1 d l c2 c3 tail by blast
qed

theorem C3_entropy_consumed_witness:
  "length (fst (generateStream (newLogisticMooreDefault testKey) (totalNeeded 1024 256))) = 524288
   \<and> cursor (buildLocals (newLogisticMooreDefault testKey) 1024 256) = 523264
   \<and> delta (machine (buildLocals (newLogisticMooreDefault testKey) 1024 256)) ! 3 ! 5
       = uint (fst (generateStream (newLogisticMooreDefault testKey) (totalNeeded 1024 256)) ! 773)
         mod 1024"
proof -
  have "(0 :: nat) < 1024" and "(1024 :: nat) \<le> 2 ^ 31" and "(0 :: nat) < 256"
    by simp_all
  note t = C3_entropy_consumed [OF this refl refl, where mooreGen = "newLogisticMooreDefault testKey"]
  have a: "length (fst (generateStream (newLogisticMooreDefault testKey) (totalNeeded 1024 256)))
      = 2 * 1024 * 256"
    using t by blast
  have c: "cursor (buildLocals (newLogisticMooreDefault testKey) 1024 256)
      = 1024 * 256 + 1024 * (256 - 1)"
    using t by blast
  have d: "\<forall>s < 1024. \<forall>i < 256.
      delta (machine (buildLocals (newLogisticMooreDefault testKey) 1024 256)) ! s ! i
      = uint (fst (generateStream (newLogisticMooreDefault testKey) (totalNeeded 1024 256))
                ! (s * 256 + i)) mod int 1024"
    using t by blast
  have "delta (machine (buildLocals (newLogisticMooreDefault testKey) 1024 256)) ! 3 ! 5
      = uint (fst (generateStream (newLogisticMooreDefault testKey) (totalNeeded 1024 256))
                ! (3 * 256 + 5)) mod int 1024"
    using d by simp
  with a c show ?thesis
    by simp
qed

text \<open>
  The claim as stated has the output-permutation fill consume the remaining \<open>n * m\<close>
  values, which would leave the cursor at \<open>2 * n * m = 524288\<close>. With 1024 states and
  256 symbols it stops at 523264.
\<close>

theorem C3_counterexample:
  "cursor (buildLocals (newLogisticMooreDefault testKey) 1024 256) = 523264
   \<and> cursor (buildLocals (newLogisticMooreDefault testKey) 1024 256) \<noteq> 2 * 1024 * 256"
  by (simp add: buildLocals_def fillTables_eq)

section \<open>Claim C6: the range of the seed\<close>

text \<open>
  Claim C6, as amended. For every key string, the empty and the very short ones
  included, the seed that \<open>_initializeSeed\<close> computes as
  \<open>0.1 + (|hash| mod 800000) / 1000000\<close> lies in the half-open interval
  \<open>[0.1, 0.9)\<close>: it is at least the number \<open>0.1\<close> and strictly below the number \<open>0.9\<close>.
  The bounds are the numbers that the literals \<open>0.1\<close> and \<open>0.9\<close> denote, as a
  comparison in the program reads them.
\<close>

theorem C6_seed_range:
  "literal (1 / 10) \<le> initializeSeed key \<and> initializeSeed key < literal (9 / 10)"
  using initializeSeed_bounds [of key] by simp

text \<open>
  The lower bound is reached: the hash of the empty key is 0, and the seed is the
  number \<open>0.1\<close> itself, which is not strictly inside \<open>(0.1, 0.9)\<close>.
\<close>

theorem C6_counterexample:
  "keyHash [] = 0 \<and> initializeSeed [] = literal (1 / 10)
   \<and> \<not> (literal (1 / 10) < initializeSeed [])"
  by code_simp

section \<open>Claim C5: determinism\<close>

text \<open>
  Claim C5. For every key string \<open>K\<close> and every count \<open>N\<close>, two fresh
  \<open>LogisticMoore(K)\<close> instances produce identical \<open>generateStream(N)\<close> sequences, and
  two independent \<open>buildMealyMachine\<close> builds from fresh generators seeded with the
  same key produce identical \<open>delta\<close>, \<open>lambdaTable\<close> and \<open>lambdaInv\<close> tables, entry
  for entry.

  The stream of a fresh instance is a function of the key, the number of
  stabilization steps and the index alone: its \<open>i\<close>-th value is \<open>streamValue\<close>, the
  extraction from the seed after \<open>steps + i + 1\<close> transitions. The generator that
  \<open>generateStream\<close> leaves behind is a different one, so the instances must be fresh.
\<close>

theorem C5_determinism:
  assumes "g1 = newLogisticMoore key steps" and "g2 = newLogisticMoore key steps"
  shows "fst (generateStream g1 count) = fst (generateStream g2 count)
       \<and> length (fst (generateStream g1 count)) = count
       \<and> (\<forall>i < count. fst (generateStream g1 count) ! i = streamValue key steps i)
       \<and> delta (buildMealyMachine g1 nStates mAlphabet) = delta (buildMealyMachine g2 nStates mAlphabet)
       \<and> lambdaTable (buildMealyMachine g1 nStates mAlphabet)
           = lambdaTable (buildMealyMachine g2 nStates mAlphabet)
       \<and> lambdaInv (buildMealyMachine g1 nStates mAlphabet)
           = lambdaInv (buildMealyMachine g2 nStates mAlphabet)"
proof -
  have s1: "fst (generateStream g1 count) = map (streamValue key steps) [0..<count]" for count
    unfolding assms(1) by (rule fresh_stream)
  have s2: "fst (generateStream g2 count) = map (streamValue key steps) [0..<count]" for count
    unfolding assms(2) by (rule fresh_stream)
  have "buildMealyMachine g1 nStates mAlphabet = buildMealyMachine g2 nStates mAlphabet"
    by (simp only: buildMealyMachine_eq s1 s2)
  then show ?thesis
    by (simp add: s1 s2)
qed

theorem C5_determinism_witness:
  "fst (generateStream (newLogisticMoore testKey 1000) 5)
     = fst (generateStream (newLogisticMoore testKey 1000) 5)
   \<and> fst (generateStream (newLogisticMoore testKey 1000) 5) ! 2 = streamValue testKey 1000 2
   \<and> delta (buildMealyMachine (newLogisticMoore testKey 1000) 1024 256)
     = delta (buildMealyMachine (newLogisticMoore testKey 1000) 1024 256)"
proof -
  note t = C5_determinism [OF refl refl, where key = testKey and steps = 1000 and count = 5]
  have "\<forall>i < 5. fst (generateStream (newLogisticMoore testKey 1000) 5) ! i = streamValue testKey 1000 i"
    using t by blast
  then show ?thesis
    by simp
qed

section \<open>Claim C8: the NPCR metric\<close>

text \<open>
  Claim C8. \<open>calculateNPCR(a, b)\<close> returns the zero sentinel string \<open>"0.00"\<close>, without
  throwing, whenever the two inputs have mismatched lengths, and for equal-length
  non-empty inputs returns the fraction of positions where the bytes differ, times
  100, formatted to 2 decimal places; in particular
  \<open>calculateNPCR([1,2,3], [1,2,3]) = "0.00"\<close> and
  \<open>calculateNPCR([1,2,3], [9,9,9]) = "100.00"\<close>.

  For equal-length non-empty inputs the result is \<open>toFixed(2)\<close> of the quotient of the
  number of differing positions by the length, times 100, in the arithmetic of
  numbers. For arrays of fewer than \<open>2^32\<close> bytes it is also the two-decimal numeral
  \<open>N / 100\<close> of an integer \<open>N\<close> nearest to the exact \<open>10000 * d / n\<close>: the rounding
  errors of the division and of the multiplication never move the result to another
  hundredth.
\<close>

theorem C8_npcr:
  "(length a \<noteq> length b \<longrightarrow> calculateNPCR (Some a) (Some b) = ''0.00'')
   \<and> (length a = length b \<and> a \<noteq> [] \<longrightarrow>
        calculateNPCR (Some a) (Some b) =
          toFixed 2 (fmul (fdiv (of_nat (differingPositions a b)) (of_nat (length a))) 100))
   \<and> (length a = length b \<and> a \<noteq> [] \<and> length a < 2 ^ 32 \<longrightarrow>
        (\<exists>N. calculateNPCR (Some a) (Some b) = formatFixed 2 N
           \<and> \<bar>(of_nat N :: rat) - 10000 * of_nat (differingPositions a b) / of_nat (length a)\<bar>
               \<le> 1 / 2))
   \<and> calculateNPCR (Some [1, 2, 3]) (Some [1, 2, 3]) = ''0.00''
   \<and> calculateNPCR (Some [1, 2, 3]) (Some [9, 9, 9]) = ''100.00''"
proof -
  have mismatch: "calculateNPCR (Some a) (Some b) = ''0.00''" if "length a \<noteq> length b"
    using that by (simp add: calculateNPCR_def)
  have equal: "calculateNPCR (Some a) (Some b) =
      toFixed 2 (fmul (fdiv (of_nat (differingPositions a b)) (of_nat (length a))) 100)"
    if "length a = length b \<and> a \<noteq> []"
    using that by (auto simp: calculateNPCR_def countDiff_eq)
  have near: "\<exists>N. calculateNPCR (Some a) (Some b) = formatFixed 2 N
           \<and> \<bar>(of_nat N :: rat) - 10000 * of_nat (differingPositions a b) / of_nat (length a)\<bar>
               \<le> 1 / 2"
    if "length a = length b \<and> a \<noteq> [] \<and> length a < 2 ^ 32"
    using that calculateNPCR_nearest [of a b] by blast
  have c0: "countDiff [1, 2, 3] [1, 2, 3] = 0" and c3: "countDiff [1, 2, 3] [9, 9, 9] = 3"
    by code_simp+
  have a0: "fmul (fdiv 0 3) 100 = 0" and a3: "fmul (fdiv 3 3) 100 = 100"
    by code_simp+
  have same: "calculateNPCR (Some [1, 2, 3]) (Some [1, 2, 3]) = ''0.00''"
    by (simp add: calculateNPCR_def c0 a0 toFixed_2_zero)
  have all: "calculateNPCR (Some [1, 2, 3]) (Some [9, 9, 9]) = ''100.00''"
    by (simp add: calculateNPCR_def c3 a3 toFixed_2_hundred)
  from mismatch equal near same all show ?thesis
    by blast
qed

theorem C8_npcr_witness:
  "calculateNPCR (Some [1, 2]) (Some [1, 2, 3]) = ''0.00''
   \<and> calculateNPCR (Some [1, 2, 3, 4]) (Some [1, 9, 3, 4]) = ''25.00''"
proof -
  have "length [1 :: 8 word, 2] \<noteq> length [1 :: 8 word, 2, 3]"
    by simp
  then have first: "calculateNPCR (Some [1, 2]) (Some [1, 2, 3]) = ''0.00''"
    using C8_npcr [of "[1, 2]" "[1, 2, 3]"] by blast
  have "length [1 :: 8 word, 2, 3, 4] = length [1 :: 8 word, 9, 3, 4] \<and> [1 :: 8 word, 2, 3, 4] \<noteq> []"
    by simp
  then have "calculateNPCR (Some [1, 2, 3, 4]) (Some [1, 9, 3, 4]) =
      toFixed 2 (fmul (fdiv (of_nat (differingPositions [1, 2, 3, 4] [1, 9, 3, 4]))
                         (of_nat (length [1 :: 8 word, 2, 3, 4]))) 100)"
    using C8_npcr [of "[1, 2, 3, 4]" "[1, 9, 3, 4]"] by blast
  moreover have "differingPositions [1, 2, 3, 4] [1, 9, 3, 4] = 1"
    unfolding countDiff_eq [symmetric] by code_simp
  moreover have "fmul (fdiv 1 4) 100 = 25"
    by code_simp
  moreover have "toFixed 2 25 = ''25.00''"
    using toFixed_of_nat [of 2 25] by (simp add: format_simps)
  ultimately have "calculateNPCR (Some [1, 2, 3, 4]) (Some [1, 9, 3, 4]) = ''25.00''"
    by simp
  with first show ?thesis by simp
qed

section \<open>Claim C9: the Shannon entropy metric\<close>

text \<open>
  Claim C9. \<open>calculateEntropy\<close> returns \<open>"0.0000"\<close> for empty input, and for non-empty
  input returns \<open>- \<Sum> p * log2(p)\<close> computed over the frequency histogram of the
  observed values (the bins of nonzero probability only), formatted to 4 decimal
  places; in particular \<open>calculateEntropy([0,0,0,0]) = "0.0000"\<close> and
  \<open>calculateEntropy([0,1]) = "1.0000"\<close>.

  The sum is accumulated in the arithmetic of numbers, over the observed values in
  ascending order, with the \<open>Math.log2\<close> of the implementation. The first example
  needs \<open>Math.log2(1) = 0\<close>, which ECMAScript requires; the second needs
  \<open>Math.log2(0.5) = -1\<close>.
\<close>

theorem C9_entropy:
  "calculateEntropy log2 None = ''0.0000''
   \<and> calculateEntropy log2 (Some []) = ''0.0000''
   \<and> (data \<noteq> [] \<longrightarrow> calculateEntropy log2 (Some data) = toFixed 4 (entropySum log2 data))
   \<and> (log2 1 = 0 \<longrightarrow> calculateEntropy log2 (Some [0, 0, 0, 0]) = ''0.0000'')
   \<and> (log2 (1 / 2) = - 1 \<longrightarrow> calculateEntropy log2 (Some [0, 1]) = ''1.0000'')"
proof -
  have empty: "calculateEntropy log2 None = ''0.0000''" "calculateEntropy log2 (Some []) = ''0.0000''"
    by (simp_all add: calculateEntropy_def)
  have general: "calculateEntropy log2 (Some data) = toFixed 4 (entropySum log2 data)"
    if "data \<noteq> []"
    using that by (rule calculateEntropy_eq)
  have v0: "observedValues [0, 0, 0, 0] = [0]" and v1: "observedValues [0, 1] = [0, 1]"
    by code_simp+
  have p0: "probability [0, 0, 0, 0] 0 = 1"
    and p1: "probability [0, 1] 0 = 1 / 2" "probability [0, 1] 1 = 1 / 2"
    by code_simp+
  have s0: "fsub 0 (fmul 1 0) = 0"
    and s1: "fsub 0 (fmul (1 / 2) (- 1)) = 1 / 2"
    and s2: "fsub (1 / 2) (fmul (1 / 2) (- 1)) = 1"
    by code_simp+
  have zeros: "calculateEntropy log2 (Some [0, 0, 0, 0]) = ''0.0000''" if "log2 1 = 0"
  proof -
    have "entropySum log2 [0, 0, 0, 0] = 0"
      using that by (simp add: entropySum_def v0 p0 s0)
    then show ?thesis
      using calculateEntropy_eq [of "[0, 0, 0, 0]" log2] by (simp add: toFixed_4_zero)
  qed
  have bit: "calculateEntropy log2 (Some [0, 1]) = ''1.0000''" if "log2 (1 / 2) = - 1"
  proof -
    have "entropySum log2 [0, 1] = 1"
      using that by (simp add: entropySum_def v1 p1 s1 s2)
    then show ?thesis
      using calculateEntropy_eq [of "[0, 1]" log2] by (simp add: toFixed_4_one)
  qed
  from empty general zeros bit show ?thesis
    by blast
qed

theorem C9_entropy_witness:
  "calculateEntropy log2Floor (Some [0, 0, 0, 0]) = ''0.0000''
   \<and> calculateEntropy log2Floor (Some [0, 1]) = ''1.0000''
   \<and> calculateEntropy log2Floor (Some [7]) = toFixed 4 (entropySum log2Floor [7])"
proof -
  have "log2Floor 1 = 0" and "log2Floor (1 / 2) = - 1"
    by code_simp+
  moreover have "[7 :: 8 word] \<noteq> []"
    by simp
  ultimately show ?thesis
    using C9_entropy [of log2Floor "[7]"] by blast
qed

end
